theory Spec2Isabelle
  imports Complex_Main "HOL-Library.AList"
begin

section \<open>Python values, errors and the built-ins used by the agent\<close>

text \<open>
  The observations that reach the agent are decoded JSON: \<open>None\<close>, integers, strings
  and lists, plus the tuples the agent builds itself.  On these five kinds of value
  Python's \<open>==\<close> is structural, so HOL equality on \<open>pyval\<close> is Python equality.
  Rewards and table values are numbers of an arbitrary type \<open>'a\<close>: the definitions use
  only \<open>0\<close>, \<open>+\<close>, \<open>-\<close>, \<open>*\<close> and \<open><\<close> on it, in the order the source applies them.
\<close>

datatype pyval = PNone | PInt int | PStr string | PList "pyval list" | PTuple "pyval list"

datatype error = TypeError | ValueError | IndexError | HTTPError

text \<open>A list is unhashable; a tuple is hashable when all its components are.\<close>

fun hashable :: "pyval \<Rightarrow> bool" where
  "hashable (PList xs) = False"
| "hashable (PTuple xs) = list_all hashable xs"
| "hashable v = True"

text \<open>\<open>tuple(v)\<close>: iterates a list, a tuple or a string; anything else is not iterable.\<close>

fun py_tuple :: "pyval \<Rightarrow> error + pyval" where
  "py_tuple (PList xs) = Inr (PTuple xs)"
| "py_tuple (PTuple xs) = Inr (PTuple xs)"
| "py_tuple (PStr s) = Inr (PTuple (map (\<lambda>c. PStr [c]) s))"
| "py_tuple v = Inl TypeError"

text \<open>\<open>x, y = v\<close>: the iterable must yield exactly two items.\<close>

fun unpack2 :: "pyval \<Rightarrow> error + (pyval \<times> pyval)" where
  "unpack2 v =
     (case py_tuple v of
        Inl e \<Rightarrow> Inl e
      | Inr (PTuple [x, y]) \<Rightarrow> Inr (x, y)
      | Inr _ \<Rightarrow> Inl ValueError)"

text \<open>\<open>v > n\<close> and \<open>v < n\<close> against an integer: only an integer can be compared.\<close>

fun py_gt_int :: "pyval \<Rightarrow> int \<Rightarrow> error + bool" where
  "py_gt_int (PInt i) n = Inr (n < i)"
| "py_gt_int v n = Inl TypeError"

fun py_lt_int :: "pyval \<Rightarrow> int \<Rightarrow> error + bool" where
  "py_lt_int (PInt i) n = Inr (i < n)"
| "py_lt_int v n = Inl TypeError"

text \<open>
  \<open>max(a, b)\<close> keeps \<open>a\<close> unless \<open>b > a\<close>; \<open>max(iterable)\<close> folds the same test
  from the first item and raises \<open>ValueError\<close> on an empty iterable.
\<close>

definition py_max2 :: "'a::ord \<Rightarrow> 'a \<Rightarrow> 'a" where
  "py_max2 a b = (if a < b then b else a)"

fun py_max :: "'a::ord list \<Rightarrow> error + 'a" where
  "py_max [] = Inl ValueError"
| "py_max (x # xs) = Inr (foldl py_max2 x xs)"

text \<open>Evaluating a list of fallible items in order: the first error is the result.\<close>

fun collect :: "('e + 'b) list \<Rightarrow> 'e + 'b list" where
  "collect [] = Inr []"
| "collect (Inl e # rs) = Inl e"
| "collect (Inr v # rs) = (case collect rs of Inl e \<Rightarrow> Inl e | Inr vs \<Rightarrow> Inr (v # vs))"

section \<open>The Q-learning agent\<close>

record 'a agent =
  world_id :: string
  directions :: "string list"
  alpha :: 'a
  gamma :: 'a
  epsilon :: 'a
  episodes :: int
  min_epsilon :: 'a
  decay_rate :: 'a
  Q :: "(pyval \<times> string) \<rightharpoonup> 'a"

text \<open>\<open>__init__\<close>: \<open>directions or ["N", "S", "W", "E"]\<close> replaces an absent or empty list.\<close>

definition QLearningAgent :: "string \<Rightarrow> string list option \<Rightarrow> 'a \<Rightarrow> 'a \<Rightarrow> 'a \<Rightarrow> int \<Rightarrow> 'a \<Rightarrow> 'a \<Rightarrow> 'a agent" where
  "QLearningAgent wid dirs a g e n me dr =
     \<lparr> world_id = wid,
       directions = (case dirs of None \<Rightarrow> [''N'', ''S'', ''W'', ''E'']
                     | Some [] \<Rightarrow> [''N'', ''S'', ''W'', ''E'']
                     | Some ds \<Rightarrow> ds),
       alpha = a, gamma = g, epsilon = e, episodes = n,
       min_epsilon = me, decay_rate = dr, Q = Map.empty \<rparr>"

text \<open>\<open>_state_key\<close>: a list or tuple becomes a tuple, anything else a 1-tuple.\<close>

fun state_key :: "pyval \<Rightarrow> pyval" where
  "state_key (PList xs) = PTuple xs"
| "state_key (PTuple xs) = PTuple xs"
| "state_key v = PTuple [v]"

text \<open>\<open>self.Q.get((key, d), 0)\<close>: hashing the key raises on an unhashable component.\<close>

definition Q_get :: "((pyval \<times> string) \<rightharpoonup> 'a) \<Rightarrow> pyval \<Rightarrow> string \<Rightarrow> 'a \<Rightarrow> error + 'a" where
  "Q_get q key d dflt =
     (if hashable key then Inr (case q (key, d) of None \<Rightarrow> dflt | Some v \<Rightarrow> v)
      else Inl TypeError)"

definition valid_directions :: "'a agent \<Rightarrow> pyval \<Rightarrow> int \<Rightarrow> error + string list" where
  "valid_directions ag position grid_size =
     (case unpack2 position of
        Inl e \<Rightarrow> Inl e
      | Inr (x, y) \<Rightarrow>
          (let m = grid_size - 1 in
           case collect [py_gt_int x 0, py_lt_int x m, py_gt_int y 0, py_lt_int y m] of
             Inl e \<Rightarrow> Inl e
           | Inr bs \<Rightarrow>
               (let dirs = map snd (filter fst (zip bs [''N'', ''S'', ''W'', ''E'']))
                in Inr (if dirs = [] then directions ag else dirs))))"

definition learn ::
  "('a::{zero,plus,minus,times,ord}) agent \<Rightarrow> pyval \<Rightarrow> string \<Rightarrow> 'a \<Rightarrow> pyval \<Rightarrow> bool \<Rightarrow> error + 'a agent" where
  "learn ag skey action reward next_key done =
     (case Q_get (Q ag) skey action 0 of
        Inl e \<Rightarrow> Inl e
      | Inr q_val \<Rightarrow>
          (case (if done then Inr reward
                 else (case collect (map (\<lambda>d. Q_get (Q ag) next_key d 0) (directions ag)) of
                         Inl e \<Rightarrow> Inl e
                       | Inr vals \<Rightarrow>
                           (case py_max vals of
                              Inl e \<Rightarrow> Inl e
                            | Inr future_max \<Rightarrow> Inr (reward + gamma ag * future_max)))) of
             Inl e \<Rightarrow> Inl e
           | Inr target \<Rightarrow>
               Inr (ag\<lparr>Q := (Q ag)((skey, action) \<mapsto> q_val + alpha ag * (target - q_val))\<rparr>)))"


section \<open>The collaborators: world service, random source, points file\<close>

text \<open>
  A decoded JSON result as the training loop reads it: each field is read with
  \<open>.get\<close>, so an absent key is \<open>None\<close> at this level and the loop supplies its default.
\<close>

record 'a response =
  get_reward :: "'a option"
  get_completed :: "bool option"
  get_position :: "pyval option"
  get_worldId :: "pyval option"

text \<open>
  The remote world and the process-wide random generator are outside the program; they
  are a state \<open>'w\<close> and the operations the agent calls on it.  A request can fail
  (\<open>raise_for_status\<close>).  \<open>randbelow\<close> yields a raw draw that \<open>choice\<close> reduces
  modulo the length of the sequence, as \<open>random.choice\<close> indexes with a number below it.
\<close>

record ('w, 'a) world =
  enter_world :: "string \<Rightarrow> 'w \<Rightarrow> error + 'w"
  get_location :: "'w \<Rightarrow> error + ('a response \<times> 'w)"
  make_move :: "string \<Rightarrow> string \<Rightarrow> 'w \<Rightarrow> error + ('a response \<times> 'w)"
  random :: "'w \<Rightarrow> 'a \<times> 'w"
  randbelow :: "'w \<Rightarrow> nat \<times> 'w"

text \<open>The best reward starts as \<open>float('-inf')\<close> and is a number afterwards.\<close>

datatype 'a score = NegInf | Num 'a

text \<open>\<open>max(best_reward, total)\<close>: every number is greater than \<open>-inf\<close>.\<close>

fun score_max :: "'a::ord score \<Rightarrow> 'a \<Rightarrow> 'a score" where
  "score_max NegInf t = Num t"
| "score_max (Num b) t = Num (py_max2 b t)"

fun score_add :: "'a::plus score \<Rightarrow> 'a score \<Rightarrow> 'a score" where
  "score_add (Num a) (Num b) = Num (a + b)"
| "score_add a b = NegInf"

text \<open>
  \<open>points.json\<close>: for each team a running total and the points by world, a JSON object
  (insertion-ordered).
\<close>

record 'a team =
  total :: "'a score"
  by_world :: "(string \<times> 'a score) list"

definition store_points ::
  "string \<Rightarrow> string \<Rightarrow> ('a::{zero,plus}) score \<Rightarrow> (string \<rightharpoonup> 'a team) \<Rightarrow> (string \<rightharpoonup> 'a team)" where
  "store_points team_id wid points data =
     (let team = (case data team_id of None \<Rightarrow> \<lparr>total = Num 0, by_world = []\<rparr> | Some t \<Rightarrow> t);
          bw = AList.update wid points (by_world team)
      in data(team_id \<mapsto> team\<lparr>by_world := bw, total := foldl score_add (Num 0) (map snd bw)\<rparr>))"

section \<open>Action selection\<close>

text \<open>\<open>random.choice\<close>: an empty sequence raises \<open>IndexError\<close>.\<close>

definition choice :: "('w, 'a) world \<Rightarrow> 'b list \<Rightarrow> 'w \<Rightarrow> error + ('b \<times> 'w)" where
  "choice env xs w =
     (if xs = [] then Inl IndexError
      else (case randbelow env w of (k, w') \<Rightarrow> Inr (xs ! (k mod length xs), w')))"

definition choose_direction ::
  "('w, 'a::{zero,ord}) world \<Rightarrow> 'a agent \<Rightarrow> pyval \<Rightarrow> string list option \<Rightarrow> 'w \<Rightarrow> error + (string \<times> 'w)" where
  "choose_direction env ag skey valid_dirs w =
     (let dirs = (case valid_dirs of None \<Rightarrow> directions ag
                  | Some [] \<Rightarrow> directions ag
                  | Some ds \<Rightarrow> ds)
      in case random env w of
           (u, w1) \<Rightarrow>
             if u < epsilon ag then choice env dirs w1
             else (case collect (map (\<lambda>d. Q_get (Q ag) skey d 0) dirs) of
                     Inl e \<Rightarrow> Inl e
                   | Inr q_vals \<Rightarrow>
                       (case py_max q_vals of
                          Inl e \<Rightarrow> Inl e
                        | Inr max_q \<Rightarrow>
                            choice env (map fst (filter (\<lambda>(d, q). q = max_q) (zip dirs q_vals))) w1)))"

section \<open>The training loop\<close>

text \<open>
  \<open>self._state_key((res.get("worldId"), tuple(position)))\<close>, the key the loop builds
  from a result: the position is converted by \<open>tuple\<close> before \<open>_state_key\<close> sees it.
\<close>

definition observation_key :: "'a response \<Rightarrow> pyval \<Rightarrow> error + pyval" where
  "observation_key res position =
     (case py_tuple position of
        Inl e \<Rightarrow> Inl e
      | Inr t \<Rightarrow> Inr (state_key (PTuple [(case get_worldId res of None \<Rightarrow> PNone | Some v \<Rightarrow> v), t])))"

text \<open>
  One pass through the body of \<open>while not done\<close>, without the accumulation of the total:
  it yields the updated agent and world, the new position and key, the reward and \<open>done\<close>.
\<close>

definition step ::
  "('w, 'a::{zero,plus,minus,times,ord}) world \<Rightarrow> 'a agent \<Rightarrow> 'w \<Rightarrow> pyval \<Rightarrow> pyval \<Rightarrow>
     error + ('a agent \<times> 'w \<times> pyval \<times> pyval \<times> 'a \<times> bool)" where
  "step env ag w position skey =
     (case valid_directions ag position 40 of
        Inl e \<Rightarrow> Inl e
      | Inr valid \<Rightarrow>
          (case choose_direction env ag skey (Some valid) w of
             Inl e \<Rightarrow> Inl e
           | Inr (move, w1) \<Rightarrow>
               (case make_move env (world_id ag) move w1 of
                  Inl e \<Rightarrow> Inl e
                | Inr (res, w2) \<Rightarrow>
                    (let reward = (case get_reward res of None \<Rightarrow> 0 | Some r \<Rightarrow> r);
                         done = (case get_completed res of None \<Rightarrow> False | Some b \<Rightarrow> b);
                         position' = (case get_position res of None \<Rightarrow> PList [] | Some p \<Rightarrow> p)
                     in case observation_key res position' of
                          Inl e \<Rightarrow> Inl e
                        | Inr next_key \<Rightarrow>
                            (case learn ag skey move reward next_key done of
                               Inl e \<Rightarrow> Inl e
                             | Inr ag' \<Rightarrow> Inr (ag', w2, position', next_key, reward, done))))))"

text \<open>
  The \<open>while not done\<close> loop.  The world decides when an episode ends, so the loop may
  run forever: the first argument bounds the number of passes, and \<open>None\<close> is a loop that
  has not ended within the bound.
\<close>

fun episode_loop ::
  "nat \<Rightarrow> ('w, 'a::{zero,plus,minus,times,ord}) world \<Rightarrow> 'a agent \<Rightarrow> 'w \<Rightarrow> pyval \<Rightarrow> pyval \<Rightarrow> 'a \<Rightarrow>
     (error + ('a agent \<times> 'w \<times> 'a)) option" where
  "episode_loop 0 env ag w position skey tot = None"
| "episode_loop (Suc n) env ag w position skey tot =
     (case step env ag w position skey of
        Inl e \<Rightarrow> Some (Inl e)
      | Inr (ag', w', position', next_key, reward, done) \<Rightarrow>
          if done then Some (Inr (ag', w', tot + reward))
          else episode_loop n env ag' w' position' next_key (tot + reward))"

text \<open>The \<open>for _ in range(self.episodes)\<close> loop, with the episodes still to run.\<close>

fun train_loop ::
  "nat \<Rightarrow> ('w, 'a::{zero,plus,minus,times,ord}) world \<Rightarrow> nat \<Rightarrow> 'a score \<Rightarrow> 'a agent \<Rightarrow> 'w \<Rightarrow>
     (error + ('a score \<times> 'a agent \<times> 'w)) option" where
  "train_loop fuel env 0 best_reward ag w = Some (Inr (best_reward, ag, w))"
| "train_loop fuel env (Suc k) best_reward ag w =
     (case enter_world env (world_id ag) w of
        Inl e \<Rightarrow> Some (Inl e)
      | Inr w1 \<Rightarrow>
          (case get_location env w1 of
             Inl e \<Rightarrow> Some (Inl e)
           | Inr (loc, w2) \<Rightarrow>
               (let position = (case get_position loc of None \<Rightarrow> PList [] | Some p \<Rightarrow> p)
                in case observation_key loc position of
                     Inl e \<Rightarrow> Some (Inl e)
                   | Inr skey \<Rightarrow>
                       (case episode_loop fuel env ag w2 position skey 0 of
                          None \<Rightarrow> None
                        | Some (Inl e) \<Rightarrow> Some (Inl e)
                        | Some (Inr (ag1, w3, tot)) \<Rightarrow>
                            train_loop fuel env k (score_max best_reward tot)
                              (ag1\<lparr>epsilon := py_max2 (min_epsilon ag1) (epsilon ag1 * decay_rate ag1)\<rparr>)
                              w3))))"

text \<open>
  \<open>train\<close>: \<open>range\<close> of a negative count is empty.  The result is the best reward, the
  agent, the world and the points file after \<open>store_points\<close>.
\<close>

definition train ::
  "nat \<Rightarrow> ('w, 'a::{zero,plus,minus,times,ord}) world \<Rightarrow> string \<Rightarrow> 'a agent \<Rightarrow> 'w \<Rightarrow> (string \<rightharpoonup> 'a team) \<Rightarrow>
     (error + ('a score \<times> 'a agent \<times> 'w \<times> (string \<rightharpoonup> 'a team))) option" where
  "train fuel env team_id ag w data =
     (case train_loop fuel env (nat (episodes ag)) NegInf ag w of
        None \<Rightarrow> None
      | Some (Inl e) \<Rightarrow> Some (Inl e)
      | Some (Inr (best_reward, ag', w')) \<Rightarrow>
          Some (Inr (best_reward, ag', w', store_points team_id (world_id ag') best_reward data)))"

section \<open>Notions used to state the properties\<close>

text \<open>
  The displacement each direction stands for, in the spec's words a move that must keep
  the coordinates on the grid.  The world that applies a move is a remote service and no
  code of the repository moves the agent; the convention is the one the guards of
  \<open>valid_directions\<close> encode (N and S change the first coordinate, W and E the second).
\<close>

definition displace :: "string \<Rightarrow> int \<times> int \<Rightarrow> int \<times> int" where
  "displace d p =
     (case p of (x, y) \<Rightarrow>
        if d = ''N'' then (x - 1, y)
        else if d = ''S'' then (x + 1, y)
        else if d = ''W'' then (x, y - 1)
        else if d = ''E'' then (x, y + 1)
        else (x, y))"

text \<open>Both coordinates within \<open>[0, grid_size - 1]\<close>.\<close>

definition in_grid :: "int \<Rightarrow> int \<times> int \<Rightarrow> bool" where
  "in_grid grid_size p =
     (case p of (x, y) \<Rightarrow> 0 \<le> x \<and> x \<le> grid_size - 1 \<and> 0 \<le> y \<and> y \<le> grid_size - 1)"

text \<open>The table entry of a pair as a lookup sees it: 0 for a pair not yet in the table.\<close>

definition entry :: "((pyval \<times> string) \<rightharpoonup> 'a::zero) \<Rightarrow> pyval \<Rightarrow> string \<Rightarrow> 'a" where
  "entry q key d = (case q (key, d) of None \<Rightarrow> 0 | Some v \<Rightarrow> v)"

text \<open>Successive calls of \<open>learn\<close> on a sequence of transitions, stopping at the first error.\<close>

fun learn_all ::
  "('a::{zero,plus,minus,times,ord}) agent \<Rightarrow> (pyval \<times> string \<times> 'a \<times> pyval \<times> bool) list \<Rightarrow> error + 'a agent" where
  "learn_all ag [] = Inr ag"
| "learn_all ag ((skey, action, reward, next_key, done) # ts) =
     (case learn ag skey action reward next_key done of
        Inl e \<Rightarrow> Inl e
      | Inr ag' \<Rightarrow> learn_all ag' ts)"

text \<open>
  What a world sees of a run: a request to enter, or a move, with the reward its result
  names (0 when it names none) and whether the result reports completion.
\<close>

datatype 'a event = Entered | Moved 'a bool

text \<open>
  A world that keeps a record of the requests it serves.  It answers as the world it wraps
  does and appends to the record on every entry and every move; the record is written at
  the world's side of the interface and owes nothing to the agent's loops.
\<close>

definition recording :: "('w, 'a::zero) world \<Rightarrow> ('w \<times> 'a event list, 'a) world" where
  "recording env =
     \<lparr> enter_world = (\<lambda>wid (w, seen).
          case enter_world env wid w of
            Inl e \<Rightarrow> Inl e
          | Inr w1 \<Rightarrow> Inr (w1, seen @ [Entered])),
       get_location = (\<lambda>(w, seen).
          case get_location env w of
            Inl e \<Rightarrow> Inl e
          | Inr (loc, w2) \<Rightarrow> Inr (loc, (w2, seen))),
       make_move = (\<lambda>wid move (w, seen).
          case make_move env wid move w of
            Inl e \<Rightarrow> Inl e
          | Inr (res, w') \<Rightarrow>
              Inr (res, (w', seen @ [Moved (case get_reward res of None \<Rightarrow> 0 | Some r \<Rightarrow> r)
                                          (get_completed res = Some True)]))),
       random = (\<lambda>(w, seen). case random env w of (u, w') \<Rightarrow> (u, (w', seen))),
       randbelow = (\<lambda>(w, seen). case randbelow env w of (k, w') \<Rightarrow> (k, (w', seen))) \<rparr>"

text \<open>
  The record of one episode with the given moves, the cumulative reward of an episode
  (its rewards added up from 0), and an episode that ends when completion is first reported.
\<close>

definition episode_log :: "('a \<times> bool) list \<Rightarrow> 'a event list" where
  "episode_log ms = Entered # map (\<lambda>(r, d). Moved r d) ms"

definition episode_total :: "('a::{zero,plus} \<times> bool) list \<Rightarrow> 'a" where
  "episode_total ms = foldl (+) 0 (map fst ms)"

definition ends_at_completion :: "('a \<times> bool) list \<Rightarrow> bool" where
  "ends_at_completion ms = (ms \<noteq> [] \<and> snd (last ms) \<and> list_all (\<lambda>m. \<not> snd m) (butlast ms))"

text \<open>
  The moves of an episode and the episodes of a run as the loops go through them.  They
  serve the proofs only: the theorems speak of the record kept by the world.
\<close>

fun episode_moves ::
  "nat \<Rightarrow> ('w, 'a::{zero,plus,minus,times,ord}) world \<Rightarrow> 'a agent \<Rightarrow> 'w \<Rightarrow> pyval \<Rightarrow> pyval \<Rightarrow> ('a \<times> bool) list" where
  "episode_moves 0 env ag w position skey = []"
| "episode_moves (Suc n) env ag w position skey =
     (case step env ag w position skey of
        Inl e \<Rightarrow> []
      | Inr (ag', w', position', next_key, reward, done) \<Rightarrow>
          (reward, done) # (if done then [] else episode_moves n env ag' w' position' next_key))"

fun run_episodes ::
  "nat \<Rightarrow> ('w, 'a::{zero,plus,minus,times,ord}) world \<Rightarrow> nat \<Rightarrow> 'a agent \<Rightarrow> 'w \<Rightarrow> ('a \<times> bool) list list" where
  "run_episodes fuel env 0 ag w = []"
| "run_episodes fuel env (Suc k) ag w =
     (case enter_world env (world_id ag) w of
        Inl e \<Rightarrow> []
      | Inr w1 \<Rightarrow>
          (case get_location env w1 of
             Inl e \<Rightarrow> []
           | Inr (loc, w2) \<Rightarrow>
               (let position = (case get_position loc of None \<Rightarrow> PList [] | Some p \<Rightarrow> p)
                in case observation_key loc position of
                     Inl e \<Rightarrow> []
                   | Inr skey \<Rightarrow>
                       (case episode_loop fuel env ag w2 position skey 0 of
                          None \<Rightarrow> []
                        | Some (Inl e) \<Rightarrow> []
                        | Some (Inr (ag1, w3, tot)) \<Rightarrow>
                            episode_moves fuel env ag w2 position skey
                              # run_episodes fuel env k
                                  (ag1\<lparr>epsilon := py_max2 (min_epsilon ag1) (epsilon ag1 * decay_rate ag1)\<rparr>)
                                  w3))))"

text \<open>
  Reading a record: each entry opens an episode, the moves up to the next entry are its moves.
\<close>

fun split_log :: "'a event list \<Rightarrow> ('a \<times> bool) list \<times> ('a \<times> bool) list list" where
  "split_log [] = ([], [])"
| "split_log (Moved r d # es) = (case split_log es of (ms, eps) \<Rightarrow> ((r, d) # ms, eps))"
| "split_log (Entered # es) = (case split_log es of (ms, eps) \<Rightarrow> ([], ms # eps))"

definition episodes_of :: "'a event list \<Rightarrow> ('a \<times> bool) list list" where
  "episodes_of events = snd (split_log events)"

text \<open>
  A position as the spec has it, an ordered pair of integers (as a list or a tuple), and a
  result that carries one together with a hashable world identifier.
\<close>

fun int_pair :: "pyval \<Rightarrow> bool" where
  "int_pair (PList [PInt x, PInt y]) = True"
| "int_pair (PTuple [PInt x, PInt y]) = True"
| "int_pair v = False"

definition good_observation :: "'a response \<Rightarrow> bool" where
  "good_observation res =
     (int_pair (case get_position res of None \<Rightarrow> PList [] | Some p \<Rightarrow> p)
      \<and> hashable (case get_worldId res of None \<Rightarrow> PNone | Some v \<Rightarrow> v))"

text \<open>
  A world on which training runs to the end: on every state of an invariant set \<open>I\<close>
  each request succeeds with a well-formed result and leads to a state of \<open>I\<close>; a move
  that does not report completion lowers the number \<open>left\<close> of moves still possible, which
  stays below the bound \<open>fuel\<close>; drawing random numbers does not raise it.
\<close>

definition well_behaved ::
  "('w, 'a) world \<Rightarrow> ('w \<Rightarrow> bool) \<Rightarrow> ('w \<Rightarrow> nat) \<Rightarrow> string \<Rightarrow> nat \<Rightarrow> bool" where
  "well_behaved env I left wid fuel =
     (\<forall>w. I w \<longrightarrow>
        left w < fuel
        \<and> (\<exists>w1. enter_world env wid w = Inr w1 \<and> I w1)
        \<and> (\<exists>loc w2. get_location env w = Inr (loc, w2) \<and> I w2 \<and> good_observation loc)
        \<and> (\<forall>move. \<exists>res w'. make_move env wid move w = Inr (res, w') \<and> I w' \<and> good_observation res
                        \<and> (get_completed res \<noteq> Some True \<longrightarrow> left w' < left w))
        \<and> I (snd (random env w)) \<and> left (snd (random env w)) \<le> left w
        \<and> I (snd (randbelow env w)) \<and> left (snd (randbelow env w)) \<le> left w)"

text \<open>
  Concrete inputs: an agent with the default directions, and a world that reports
  position (0, 0) and, on every move, reward 1 and completion.
\<close>

definition demo_agent :: "real agent" where
  "demo_agent = QLearningAgent ''7'' None (1 / 2) (9 / 10) 1 3 (1 / 100) (199 / 200)"

definition demo_key :: pyval where
  "demo_key = PTuple [PStr ''7'', PTuple [PInt 0, PInt 0]]"

definition stub_response :: "real option \<Rightarrow> bool option \<Rightarrow> real response" where
  "stub_response r c =
     \<lparr> get_reward = r, get_completed = c,
       get_position = Some (PList [PInt 0, PInt 0]), get_worldId = Some (PStr ''7'') \<rparr>"

definition stub_world :: "(unit, real) world" where
  "stub_world =
     \<lparr> enter_world = (\<lambda>wid w. Inr w),
       get_location = (\<lambda>w. Inr (stub_response None None, w)),
       make_move = (\<lambda>wid move w. Inr (stub_response (Some 1) (Some True), w)),
       random = (\<lambda>w. (0, w)),
       randbelow = (\<lambda>w. (0, w)) \<rparr>"

text \<open>
  The same world with a location report that lacks the position field, and with move
  results that lack the position and completion fields.
\<close>

definition no_position_world :: "(unit, real) world" where
  "no_position_world =
     stub_world\<lparr>get_location := (\<lambda>w. Inr ((stub_response None None)\<lparr>get_position := None\<rparr>, w))\<rparr>"

definition no_position_move_world :: "(unit, real) world" where
  "no_position_move_world =
     stub_world\<lparr>make_move := (\<lambda>wid move w. Inr ((stub_response None None)\<lparr>get_position := None\<rparr>, w))\<rparr>"

text \<open>
  A world whose episodes take two moves: the first move of an episode does not report
  completion, the second does; in the n-th episode every move is rewarded n.
\<close>

definition count_world :: "(nat \<times> nat, real) world" where
  "count_world =
     \<lparr> enter_world = (\<lambda>wid (e, m). Inr (Suc e, 2)),
       get_location = (\<lambda>w. Inr (stub_response None None, w)),
       make_move = (\<lambda>wid move (e, m). Inr (stub_response (Some (real e)) (Some (m \<le> 1)), (e, m - 1))),
       random = (\<lambda>w. (0, w)),
       randbelow = (\<lambda>w. (0, w)) \<rparr>"

section \<open>Auxiliary facts\<close>

lemma foldl_py_max2_Max:
  fixes xs :: "'a::linorder list"
  shows "foldl py_max2 x xs = Max (set (x # xs))"
proof -
  have "foldl py_max2 x xs = fold max xs x"
  proof (induction xs arbitrary: x)
    case Nil
    show ?case by simp
  next
    case (Cons y ys)
    have "py_max2 x y = max x y" by (auto simp: py_max2_def max_def)
    then show ?case using Cons[of "max x y"] by (simp add: max.commute)
  qed
  then show ?thesis by (simp only: Max.set_eq_fold)
qed

lemma foldl_py_max2_mem: "foldl py_max2 x xs \<in> set (x # xs)"
proof (induction xs arbitrary: x)
  case Nil
  show ?case by simp
next
  case (Cons y ys)
  have "py_max2 x y = x \<or> py_max2 x y = y" by (simp add: py_max2_def)
  then show ?case using Cons[of "py_max2 x y"] by auto
qed

lemma collect_Q_get:
  "hashable key \<Longrightarrow> collect (map (\<lambda>d. Q_get q key d 0) ds) = Inr (map (entry q key) ds)"
  by (induction ds) (simp_all add: Q_get_def entry_def)

lemma Q_get_hashable: "hashable key \<Longrightarrow> Q_get q key d 0 = Inr (entry q key d)"
  by (simp add: Q_get_def entry_def)

lemma demo_key_hashable: "hashable demo_key"
  by (simp add: demo_key_def)

lemma demo_agent_fields:
  "directions demo_agent = [''N'', ''S'', ''W'', ''E'']" "Q demo_agent = Map.empty"
  "alpha demo_agent = 1 / 2" "gamma demo_agent = 9 / 10" "world_id demo_agent = ''7''"
  "epsilon demo_agent = 1" "min_epsilon demo_agent = 1 / 100" "decay_rate demo_agent = 199 / 200"
  "episodes demo_agent = 3"
  by (simp_all add: demo_agent_def QLearningAgent_def)

lemma QLearningAgent_directions: "directions (QLearningAgent wid dirs a g e n me dr) \<noteq> []"
  by (simp add: QLearningAgent_def split: option.splits list.splits)

lemma learn_Q:
  assumes "learn ag skey action r next_key done = Inr ag'"
  shows "\<exists>v. ag' = ag\<lparr>Q := (Q ag)((skey, action) \<mapsto> v)\<rparr>"
  using assms unfolding learn_def by (auto split: sum.splits if_splits)

lemma learn_all_frame:
  "learn_all ag ts = Inr ag' \<Longrightarrow> k \<notin> set (map (\<lambda>(s, a, r, n, d). (s, a)) ts) \<Longrightarrow> Q ag' k = Q ag k"
proof (induction ts arbitrary: ag)
  case Nil
  then show ?case by simp
next
  case (Cons t ts)
  obtain s a r n d where t: "t = (s, a, r, n, d)" by (cases t) auto
  from Cons.prems(1) obtain ag1 where l: "learn ag s a r n d = Inr ag1" and r: "learn_all ag1 ts = Inr ag'"
    by (auto simp: t split: sum.splits)
  from learn_Q[OF l] obtain v where "ag1 = ag\<lparr>Q := (Q ag)((s, a) \<mapsto> v)\<rparr>" ..
  moreover have "k \<noteq> (s, a)" using Cons.prems(2) by (simp add: t)
  ultimately have "Q ag1 k = Q ag k" by simp
  moreover have "Q ag' k = Q ag1 k" using Cons.IH[OF r] Cons.prems(2) by simp
  ultimately show ?case by simp
qed

lemma valid_directions_pair:
  "valid_directions ag (PTuple [PInt x, PInt y]) g =
     Inr (let dirs = (if 0 < x then [''N''] else []) @ (if x < g - 1 then [''S''] else [])
                   @ (if 0 < y then [''W''] else []) @ (if y < g - 1 then [''E''] else [])
          in if dirs = [] then directions ag else dirs)"
  by (simp add: valid_directions_def Let_def)

lemma valid_directions_list:
  "valid_directions ag (PList xs) g = valid_directions ag (PTuple xs) g"
  by (simp add: valid_directions_def)

lemma choice_mem:
  assumes "xs \<noteq> []"
  shows "\<exists>v w'. choice env xs w = Inr (v, w') \<and> v \<in> set xs"
proof -
  obtain k w' where r: "randbelow env w = (k, w')" by (cases "randbelow env w")
  have "k mod length xs < length xs" using assms by simp
  then have "xs ! (k mod length xs) \<in> set xs" by (rule nth_mem)
  then show ?thesis using assms r by (simp add: choice_def)
qed

lemma best_nonempty:
  assumes "m \<in> set (map f ds)"
  shows "map fst (filter (\<lambda>(d, q). q = m) (zip ds (map f ds))) \<noteq> []
       \<and> set (map fst (filter (\<lambda>(d, q). q = m) (zip ds (map f ds)))) \<subseteq> set ds"
proof -
  from assms obtain d where d: "d \<in> set ds" "f d = m" by auto
  have z: "zip ds (map f ds) = map (\<lambda>d. (d, f d)) ds" by (induction ds) simp_all
  have "\<exists>p \<in> set (map (\<lambda>d. (d, f d)) ds). (case p of (d, q) \<Rightarrow> q = m)"
    using d by auto
  then have "filter (\<lambda>(d, q). q = m) (zip ds (map f ds)) \<noteq> []"
    unfolding z filter_empty_conv by blast
  moreover have "set (map fst (filter (\<lambda>(d, q). q = m) (zip ds (map f ds)))) \<subseteq> set ds"
    unfolding z by auto
  ultimately show ?thesis by simp
qed

lemma choose_direction_mem:
  assumes h: "hashable skey" and ne: "dirs \<noteq> []"
    and dirs: "dirs = (case valid_dirs of None \<Rightarrow> directions ag | Some [] \<Rightarrow> directions ag | Some ds \<Rightarrow> ds)"
  shows "\<exists>d w'. choose_direction env ag skey valid_dirs w = Inr (d, w') \<and> d \<in> set dirs"
proof -
  obtain u w1 where u: "random env w = (u, w1)" by (cases "random env w")
  have c: "collect (map (\<lambda>d. Q_get (Q ag) skey d 0) dirs) = Inr (map (entry (Q ag) skey) dirs)"
    using h by (rule collect_Q_get)
  obtain x xs where x: "map (entry (Q ag) skey) dirs = x # xs"
    using ne by (cases "map (entry (Q ag) skey) dirs") auto
  have m: "py_max (map (entry (Q ag) skey) dirs) = Inr (foldl py_max2 x xs)" by (simp add: x)
  have mem: "foldl py_max2 x xs \<in> set (map (entry (Q ag) skey) dirs)"
    unfolding x by (rule foldl_py_max2_mem)
  let ?best = "map fst (filter (\<lambda>(d, q). q = foldl py_max2 x xs) (zip dirs (map (entry (Q ag) skey) dirs)))"
  have b: "?best \<noteq> []" "set ?best \<subseteq> set dirs" using best_nonempty[OF mem] by auto
  have e: "choose_direction env ag skey valid_dirs w =
        (if u < epsilon ag then choice env dirs w1 else choice env ?best w1)"
    unfolding choose_direction_def dirs[symmetric] Let_def u c by (simp add: m)
  show ?thesis
  proof (cases "u < epsilon ag")
    case True
    then show ?thesis using choice_mem[OF ne, of env w1] e by simp
  next
    case False
    then show ?thesis using choice_mem[OF b(1), of env w1] b(2) e by auto
  qed
qed

section \<open>The value update\<close>

text \<open>
  C1. For a terminal transition with a hashable state key, \<open>learn\<close> succeeds and writes
  \<open>old + alpha * (r - old)\<close> at the pair acted on, where \<open>old\<close> is the previous entry (0 for
  an unseen pair).  The discount factor does not occur in the new value, and the next key
  is not looked up: any other next key, hashable or not, gives the same result.
\<close>

theorem learn_terminal:
  assumes "hashable skey"
  shows "learn ag skey action r next_key True =
           Inr (ag\<lparr>Q := (Q ag)((skey, action) \<mapsto>
                  entry (Q ag) skey action + alpha ag * (r - entry (Q ag) skey action))\<rparr>)
       \<and> learn ag skey action r other_key True = learn ag skey action r next_key True"
  using assms by (simp add: learn_def Q_get_def entry_def)

theorem learn_terminal_witness:
  "hashable demo_key
   \<and> learn demo_agent demo_key ''N'' 1 (PList []) True =
       Inr (demo_agent\<lparr>Q := (Q demo_agent)((demo_key, ''N'') \<mapsto> 1 / 2)\<rparr>)"
  using learn_terminal[OF demo_key_hashable, of demo_agent "''N''" 1 "PList []" "PList []"]
  by (simp add: demo_key_hashable demo_agent_fields entry_def)

text \<open>
  C2. For a non-terminal transition (hashable keys, a non-empty action list, which the
  constructor guarantees), \<open>learn\<close> succeeds and writes \<open>old + alpha * (r + gamma * m - old)\<close>
  at the pair acted on, where \<open>m\<close> is the greatest of the entries of the next key over
  all the agent's directions, each 0 when unseen.
\<close>

theorem learn_nonterminal:
  fixes ag :: "('a::{linorder,zero,plus,minus,times}) agent"
  assumes "hashable skey" and "hashable next_key" and "directions ag \<noteq> []"
  shows "learn ag skey action r next_key False =
           Inr (ag\<lparr>Q := (Q ag)((skey, action) \<mapsto>
                  entry (Q ag) skey action
                    + alpha ag * (r + gamma ag * Max (entry (Q ag) next_key ` set (directions ag))
                                   - entry (Q ag) skey action))\<rparr>)"
proof -
  obtain d ds where ds: "directions ag = d # ds"
    using assms(3) by (cases "directions ag") auto
  have "py_max (map (entry (Q ag) next_key) (directions ag))
          = Inr (Max (set (map (entry (Q ag) next_key) (directions ag))))"
    unfolding ds list.map py_max.simps foldl_py_max2_Max ..
  then have m: "py_max (map (entry (Q ag) next_key) (directions ag))
          = Inr (Max (entry (Q ag) next_key ` set (directions ag)))"
    by simp
  have c: "collect (map (\<lambda>d. Q_get (Q ag) next_key d 0) (directions ag))
          = Inr (map (entry (Q ag) next_key) (directions ag))"
    using assms(2) by (rule collect_Q_get)
  have g: "Q_get (Q ag) skey action 0 = Inr (entry (Q ag) skey action)"
    using assms(1) by (rule Q_get_hashable)
  show ?thesis unfolding learn_def c g by (simp add: m)
qed

theorem learn_nonterminal_witness:
  "hashable demo_key \<and> directions demo_agent \<noteq> []
   \<and> learn (demo_agent\<lparr>Q := [(demo_key, ''S'') \<mapsto> 1, (demo_key, ''E'') \<mapsto> 3]\<rparr>) demo_key ''N'' 2 demo_key False =
       Inr (demo_agent\<lparr>Q := [(demo_key, ''S'') \<mapsto> 1, (demo_key, ''E'') \<mapsto> 3, (demo_key, ''N'') \<mapsto> 47 / 20]\<rparr>)"
proof -
  let ?ag = "demo_agent\<lparr>Q := [(demo_key, ''S'') \<mapsto> 1, (demo_key, ''E'') \<mapsto> 3]\<rparr>"
  have d: "directions ?ag \<noteq> []" by (simp add: demo_agent_fields)
  show ?thesis
    using learn_nonterminal[OF demo_key_hashable demo_key_hashable d, of "''N''" 2]
    by (simp add: demo_key_hashable demo_agent_fields entry_def)
qed

text \<open>
  C5. A successful call of \<open>learn\<close> changes the table at the pair acted on and nowhere
  else: every other entry is as before, the keys of the table are the old ones and that
  pair, and no other field of the agent changes.  The value written stays in place through
  any later calls that act on other pairs, so a pair holds the last value computed for it.
\<close>

theorem learn_frame:
  assumes "learn ag skey action r next_key done = Inr ag'"
  shows "(\<forall>k. k \<noteq> (skey, action) \<longrightarrow> Q ag' k = Q ag k)
       \<and> dom (Q ag') = insert (skey, action) (dom (Q ag))
       \<and> ag'\<lparr>Q := Q ag\<rparr> = ag
       \<and> (\<forall>ts ag''. learn_all ag' ts = Inr ag'' \<and> (skey, action) \<notin> set (map (\<lambda>(s, a, r, n, d). (s, a)) ts)
             \<longrightarrow> Q ag'' (skey, action) = Q ag' (skey, action))"
proof -
  from learn_Q[OF assms] obtain v where v: "ag' = ag\<lparr>Q := (Q ag)((skey, action) \<mapsto> v)\<rparr>" ..
  have 1: "\<forall>k. k \<noteq> (skey, action) \<longrightarrow> Q ag' k = Q ag k" by (simp add: v)
  have 2: "dom (Q ag') = insert (skey, action) (dom (Q ag))" by (simp add: v)
  have 3: "ag'\<lparr>Q := Q ag\<rparr> = ag" by (simp add: v)
  have 4: "\<forall>ts ag''. learn_all ag' ts = Inr ag'' \<and> (skey, action) \<notin> set (map (\<lambda>(s, a, r, n, d). (s, a)) ts)
             \<longrightarrow> Q ag'' (skey, action) = Q ag' (skey, action)"
    using learn_all_frame by blast
  show ?thesis using 1 2 3 4 by blast
qed

theorem learn_frame_witness:
  "learn demo_agent demo_key ''N'' 1 demo_key True =
       Inr (demo_agent\<lparr>Q := [(demo_key, ''N'') \<mapsto> 1 / 2]\<rparr>)
   \<and> dom [(demo_key, ''N'') \<mapsto> 1 / 2 :: real] = insert (demo_key, ''N'') (dom (Q demo_agent))
   \<and> learn_all (demo_agent\<lparr>Q := [(demo_key, ''N'') \<mapsto> 1 / 2]\<rparr>) [(demo_key, ''S'', 1, demo_key, True)] =
       Inr (demo_agent\<lparr>Q := [(demo_key, ''N'') \<mapsto> 1 / 2, (demo_key, ''S'') \<mapsto> 1 / 2]\<rparr>)
   \<and> [(demo_key, ''N'') \<mapsto> 1 / 2 :: real, (demo_key, ''S'') \<mapsto> 1 / 2] (demo_key, ''N'') = Some (1 / 2)"
proof -
  have l: "learn demo_agent demo_key ''N'' 1 demo_key True =
       Inr (demo_agent\<lparr>Q := [(demo_key, ''N'') \<mapsto> 1 / 2]\<rparr>)"
    by (simp add: learn_def Q_get_def demo_key_hashable demo_agent_fields)
  have a: "learn_all (demo_agent\<lparr>Q := [(demo_key, ''N'') \<mapsto> 1 / 2]\<rparr>) [(demo_key, ''S'', 1, demo_key, True)] =
       Inr (demo_agent\<lparr>Q := [(demo_key, ''N'') \<mapsto> 1 / 2, (demo_key, ''S'') \<mapsto> 1 / 2]\<rparr>)"
    by (simp add: learn_def Q_get_def demo_key_hashable demo_agent_fields)
  show ?thesis using learn_frame[OF l] l a by (simp add: demo_agent_fields)
qed

section \<open>State keys\<close>

text \<open>
  C4, as stated, fails: \<open>_state_key\<close> converts the top level only, so the observations
  (5, (3, 4)) and (5, [3, 4]) get different keys, and the second key is not hashable.
\<close>

theorem state_key_nested_counterexample:
  "state_key (PTuple [PInt 5, PTuple [PInt 3, PInt 4]]) \<noteq> state_key (PTuple [PInt 5, PList [PInt 3, PInt 4]])
   \<and> \<not> hashable (state_key (PTuple [PInt 5, PList [PInt 3, PInt 4]]))"
  by simp

text \<open>
  C4, amended.  A list and the tuple of the same items get the same key, the tuple of
  the items; a scalar gets the 1-tuple of itself; the key is hashable exactly when every
  item is.  The training loop converts the position with \<open>tuple\<close> before it calls
  \<open>_state_key\<close>, and the key it builds is the same for a position given as a list and as
  a tuple: for world 5 and position [3, 4] it is (5, (3, 4)).
\<close>

theorem state_key_top_level:
  "state_key (PList xs) = PTuple xs \<and> state_key (PTuple xs) = PTuple xs
   \<and> state_key PNone = PTuple [PNone] \<and> state_key (PInt i) = PTuple [PInt i]
   \<and> state_key (PStr s) = PTuple [PStr s]
   \<and> hashable (state_key (PList xs)) = list_all hashable xs
   \<and> observation_key res (PList xs) = observation_key res (PTuple xs)
   \<and> observation_key (res\<lparr>get_worldId := Some (PInt 5)\<rparr>) (PList [PInt 3, PInt 4])
       = Inr (PTuple [PInt 5, PTuple [PInt 3, PInt 4]])"
  by (simp add: observation_key_def)

section \<open>Legal directions and action selection\<close>

text \<open>
  C6. On a grid of size 40 the legal directions are S, E at (0, 0); N, W at (39, 39);
  N, E at (39, 0).  For every position on the grid, given as a tuple or as a list, the
  result lists without repetition exactly the directions whose displacement stays on the grid.
\<close>

theorem valid_directions_grid40:
  "valid_directions ag (PTuple [PInt 0, PInt 0]) 40 = Inr [''S'', ''E'']
   \<and> valid_directions ag (PTuple [PInt 39, PInt 39]) 40 = Inr [''N'', ''W'']
   \<and> valid_directions ag (PTuple [PInt 39, PInt 0]) 40 = Inr [''N'', ''E'']
   \<and> (in_grid 40 (x, y) \<longrightarrow>
        (\<exists>ds. valid_directions ag (PTuple [PInt x, PInt y]) 40 = Inr ds
            \<and> valid_directions ag (PList [PInt x, PInt y]) 40 = Inr ds
            \<and> distinct ds
            \<and> set ds = {d \<in> {''N'', ''S'', ''W'', ''E''}. in_grid 40 (displace d (x, y))}))"
proof (intro conjI impI)
  assume g: "in_grid 40 (x, y)"
  let ?ds = "(if 0 < x then [''N''] else []) @ (if x < 39 then [''S''] else [])
                   @ (if 0 < y then [''W''] else []) @ (if y < 39 then [''E''] else [])"
  have ne: "?ds \<noteq> []" by auto
  have v: "valid_directions ag (PTuple [PInt x, PInt y]) 40 = Inr ?ds"
    unfolding valid_directions_pair Let_def using ne by simp
  have d: "distinct ?ds" by simp
  have s: "set ?ds = {d \<in> {''N'', ''S'', ''W'', ''E''}. in_grid 40 (displace d (x, y))}"
    using g by (auto simp: in_grid_def displace_def)
  show "\<exists>ds. valid_directions ag (PTuple [PInt x, PInt y]) 40 = Inr ds
            \<and> valid_directions ag (PList [PInt x, PInt y]) 40 = Inr ds
            \<and> distinct ds
            \<and> set ds = {d \<in> {''N'', ''S'', ''W'', ''E''}. in_grid 40 (displace d (x, y))}"
    using v d s unfolding valid_directions_list by blast
qed (simp_all add: valid_directions_pair)

theorem valid_directions_grid40_witness:
  "in_grid 40 (0, 17)
   \<and> valid_directions demo_agent (PList [PInt 0, PInt 17]) 40 = Inr [''S'', ''W'', ''E'']
   \<and> set [''S'', ''W'', ''E''] = {d \<in> {''N'', ''S'', ''W'', ''E''}. in_grid 40 (displace d (0, 17))}"
proof -
  have g: "in_grid 40 (0, 17)" by (simp add: in_grid_def)
  have v: "valid_directions demo_agent (PList [PInt 0, PInt 17]) 40 = Inr [''S'', ''W'', ''E'']"
    by (simp add: valid_directions_list valid_directions_pair)
  from valid_directions_grid40[of demo_agent 0 17] g v show ?thesis by auto
qed

text \<open>
  C7. With a non-empty action list (which the constructor guarantees), the filter returns
  a non-empty list for every position that is a pair of integers, on any grid size, and
  it is the agent's full action list when no direction passes a guard.  For a hashable
  state key \<open>choose_direction\<close> returns a direction; it is one of the agent's directions
  when the legal list is absent or empty, and one of the legal list otherwise.
\<close>

theorem never_zero_candidates:
  assumes "directions ag \<noteq> []"
  shows "(\<exists>ds. valid_directions ag (PTuple [PInt x, PInt y]) g = Inr ds
            \<and> valid_directions ag (PList [PInt x, PInt y]) g = Inr ds
            \<and> ds \<noteq> []
            \<and> (\<not> 0 < x \<and> \<not> x < g - 1 \<and> \<not> 0 < y \<and> \<not> y < g - 1 \<longrightarrow> ds = directions ag))
       \<and> (hashable skey \<longrightarrow>
            (\<exists>d w'. choose_direction env ag skey None w = Inr (d, w') \<and> d \<in> set (directions ag))
          \<and> (\<exists>d w'. choose_direction env ag skey (Some []) w = Inr (d, w') \<and> d \<in> set (directions ag))
          \<and> (vs \<noteq> [] \<longrightarrow> (\<exists>d w'. choose_direction env ag skey (Some vs) w = Inr (d, w') \<and> d \<in> set vs)))"
proof (intro conjI impI)
  show "\<exists>ds. valid_directions ag (PTuple [PInt x, PInt y]) g = Inr ds
            \<and> valid_directions ag (PList [PInt x, PInt y]) g = Inr ds
            \<and> ds \<noteq> []
            \<and> (\<not> 0 < x \<and> \<not> x < g - 1 \<and> \<not> 0 < y \<and> \<not> y < g - 1 \<longrightarrow> ds = directions ag)"
    unfolding valid_directions_list valid_directions_pair Let_def using assms by auto
next
  assume h: "hashable skey"
  show "\<exists>d w'. choose_direction env ag skey None w = Inr (d, w') \<and> d \<in> set (directions ag)"
    using choose_direction_mem[OF h assms, where valid_dirs=None and env=env and w=w] by simp
  show "\<exists>d w'. choose_direction env ag skey (Some []) w = Inr (d, w') \<and> d \<in> set (directions ag)"
    using choose_direction_mem[OF h assms, where valid_dirs="Some []" and env=env and w=w] by simp
next
  assume h: "hashable skey" and v: "vs \<noteq> []"
  have "vs = (case Some vs of None \<Rightarrow> directions ag | Some [] \<Rightarrow> directions ag | Some ds \<Rightarrow> ds)"
    using v by (cases vs) simp_all
  from choose_direction_mem[OF h v this]
  show "\<exists>d w'. choose_direction env ag skey (Some vs) w = Inr (d, w') \<and> d \<in> set vs" .
qed

theorem never_zero_candidates_witness:
  "directions demo_agent \<noteq> [] \<and> hashable demo_key
   \<and> valid_directions demo_agent (PTuple [PInt 0, PInt 0]) 1 = Inr [''N'', ''S'', ''W'', ''E'']
   \<and> choose_direction stub_world demo_agent demo_key (Some []) () = Inr (''N'', ())
   \<and> choose_direction stub_world demo_agent demo_key (Some [''S'', ''E'']) () = Inr (''S'', ())"
proof -
  have d: "directions demo_agent \<noteq> []" by (simp add: demo_agent_fields)
  have v: "valid_directions demo_agent (PTuple [PInt 0, PInt 0]) 1 = Inr [''N'', ''S'', ''W'', ''E'']"
    by (simp add: valid_directions_pair demo_agent_fields)
  have c1: "choose_direction stub_world demo_agent demo_key (Some []) () = Inr (''N'', ())"
    by (simp add: choose_direction_def stub_world_def choice_def demo_agent_fields)
  have c2: "choose_direction stub_world demo_agent demo_key (Some [''S'', ''E'']) () = Inr (''S'', ())"
    by (simp add: choose_direction_def stub_world_def choice_def demo_agent_fields)
  from never_zero_candidates[OF d, of 0 0 1 demo_key stub_world "()" "[''S'', ''E'']"]
  show ?thesis using d v c1 c2 demo_key_hashable by simp
qed


lemma learn_done:
  assumes "hashable skey"
  shows "learn ag skey action r next_key True =
           Inr (ag\<lparr>Q := (Q ag)((skey, action) \<mapsto>
                  entry (Q ag) skey action + alpha ag * (r - entry (Q ag) skey action))\<rparr>)"
  using assms by (simp add: learn_def Q_get_def entry_def)

section \<open>The training loop\<close>

lemma step_agent:
  assumes "step env ag w p k = Inr (ag', w', p', k', r, d)"
  shows "\<exists>q. ag' = ag\<lparr>Q := q\<rparr>"
proof -
  from assms obtain mv nk where "learn ag k mv r nk d = Inr ag'"
    unfolding step_def Let_def by (auto split: sum.splits prod.splits)
  from learn_Q[OF this] show ?thesis by blast
qed

lemma episode_loop_agent:
  "episode_loop n env ag w p k t = Some (Inr (ag', w', t')) \<Longrightarrow> \<exists>q. ag' = ag\<lparr>Q := q\<rparr>"
proof (induction n arbitrary: ag w p k t)
  case 0
  then show ?case by simp
next
  case (Suc n)
  from Suc.prems obtain a1 w1 p1 k1 r d where s: "step env ag w p k = Inr (a1, w1, p1, k1, r, d)"
    by (auto split: sum.splits)
  from step_agent[OF s] obtain q1 where q1: "a1 = ag\<lparr>Q := q1\<rparr>" ..
  show ?case
  proof (cases d)
    case True
    then have "ag' = a1" using Suc.prems s by simp
    then show ?thesis using q1 by blast
  next
    case False
    then have "episode_loop n env a1 w1 p1 k1 (t + r) = Some (Inr (ag', w', t'))"
      using Suc.prems s by simp
    from Suc.IH[OF this] obtain q where "ag' = a1\<lparr>Q := q\<rparr>" ..
    then have "ag' = ag\<lparr>Q := q\<rparr>" by (simp add: q1)
    then show ?thesis by blast
  qed
qed

text \<open>One pass of the \<open>for\<close> loop, unfolded.\<close>

lemma train_loop_Suc_elim:
  assumes "train_loop fuel env (Suc k) best ag w = Some (Inr (best', ag', w'))"
  obtains w1 loc w2 skey q w3 tot where
    "enter_world env (world_id ag) w = Inr w1"
    "get_location env w1 = Inr (loc, w2)"
    "observation_key loc (case get_position loc of None \<Rightarrow> PList [] | Some p \<Rightarrow> p) = Inr skey"
    "episode_loop fuel env ag w2 (case get_position loc of None \<Rightarrow> PList [] | Some p \<Rightarrow> p) skey 0
       = Some (Inr (ag\<lparr>Q := q\<rparr>, w3, tot))"
    "train_loop fuel env k (score_max best tot)
       (ag\<lparr>Q := q, epsilon := py_max2 (min_epsilon ag) (epsilon ag * decay_rate ag)\<rparr>) w3
       = Some (Inr (best', ag', w'))"
proof -
  from assms obtain w1 where 1: "enter_world env (world_id ag) w = Inr w1"
    by (auto split: sum.splits)
  from assms 1 obtain loc w2 where 2: "get_location env w1 = Inr (loc, w2)"
    by (auto split: sum.splits)
  let ?p = "case get_position loc of None \<Rightarrow> PList [] | Some p \<Rightarrow> p"
  from assms 1 2 obtain skey where 3: "observation_key loc ?p = Inr skey"
    by (auto simp: Let_def split: sum.splits)
  from assms 1 2 3 obtain ag1 w3 tot where 4: "episode_loop fuel env ag w2 ?p skey 0 = Some (Inr (ag1, w3, tot))"
    by (auto simp: Let_def split: sum.splits option.splits)
  from episode_loop_agent[OF 4] obtain q where q: "ag1 = ag\<lparr>Q := q\<rparr>" ..
  have 5: "train_loop fuel env k (score_max best tot)
       (ag\<lparr>Q := q, epsilon := py_max2 (min_epsilon ag) (epsilon ag * decay_rate ag)\<rparr>) w3
       = Some (Inr (best', ag', w'))"
    using assms 1 2 3 4 by (simp add: Let_def q)
  show ?thesis using that[OF 1 2 3 4[unfolded q] 5] .
qed

lemma train_loop_fields:
  "train_loop fuel env k best ag w = Some (Inr (best', ag', w'))
     \<Longrightarrow> world_id ag' = world_id ag \<and> min_epsilon ag' = min_epsilon ag
       \<and> decay_rate ag' = decay_rate ag \<and> directions ag' = directions ag \<and> episodes ag' = episodes ag"
proof (induction k arbitrary: best ag w)
  case 0
  then show ?case by simp
next
  case (Suc k)
  from Suc.prems show ?case
  proof (rule train_loop_Suc_elim)
    fix q w3 tot
    assume "train_loop fuel env k (score_max best tot)
       (ag\<lparr>Q := q, epsilon := py_max2 (min_epsilon ag) (epsilon ag * decay_rate ag)\<rparr>) w3
       = Some (Inr (best', ag', w'))"
    from Suc.IH[OF this] show ?thesis by simp
  qed
qed

lemma decay_floor:
  fixes e :: "'a::linorder"
  shows "m \<le> py_max2 m e"
  by (auto simp: py_max2_def)

lemma decay_le:
  fixes e :: "'a::linordered_field"
  assumes "m \<le> e" "0 \<le> e" "0 < d" "d \<le> 1"
  shows "py_max2 m (e * d) \<le> e \<and> 0 \<le> py_max2 m (e * d)"
proof -
  have "e * d \<le> e * 1" using assms(2,4) by (rule mult_left_mono[rotated])
  moreover have "0 \<le> e * d" using assms(2,3) by simp
  ultimately show ?thesis using assms(1,2) by (auto simp: py_max2_def)
qed

lemma train_loop_floor:
  fixes ag :: "('a::linordered_field) agent"
  shows "train_loop fuel env k best ag w = Some (Inr (best', ag', w')) \<Longrightarrow> 0 < k
     \<Longrightarrow> min_epsilon ag \<le> epsilon ag'"
proof (induction k arbitrary: best ag w)
  case 0
  then show ?case by simp
next
  case (Suc k)
  from Suc.prems(1) show ?case
  proof (rule train_loop_Suc_elim)
    fix q w3 tot
    let ?ag2 = "ag\<lparr>Q := q, epsilon := py_max2 (min_epsilon ag) (epsilon ag * decay_rate ag)\<rparr>"
    assume t: "train_loop fuel env k (score_max best tot) ?ag2 w3 = Some (Inr (best', ag', w'))"
    show ?thesis
    proof (cases k)
      case 0
      then have "ag' = ?ag2" using t by simp
      then show ?thesis by (simp add: decay_floor)
    next
      case (Suc j)
      then have "min_epsilon ?ag2 \<le> epsilon ag'" using Suc.IH[OF t] by simp
      then show ?thesis by simp
    qed
  qed
qed

lemma train_loop_decrease:
  fixes ag :: "('a::linordered_field) agent"
  shows "train_loop fuel env k best ag w = Some (Inr (best', ag', w'))
     \<Longrightarrow> min_epsilon ag \<le> epsilon ag \<Longrightarrow> 0 \<le> epsilon ag \<Longrightarrow> 0 < decay_rate ag \<Longrightarrow> decay_rate ag \<le> 1
     \<Longrightarrow> epsilon ag' \<le> epsilon ag \<and> min_epsilon ag \<le> epsilon ag' \<and> 0 \<le> epsilon ag'"
proof (induction k arbitrary: best ag w)
  case 0
  then show ?case by simp
next
  case (Suc k)
  from Suc.prems(1) show ?case
  proof (rule train_loop_Suc_elim)
    fix q w3 tot
    let ?ag2 = "ag\<lparr>Q := q, epsilon := py_max2 (min_epsilon ag) (epsilon ag * decay_rate ag)\<rparr>"
    assume t: "train_loop fuel env k (score_max best tot) ?ag2 w3 = Some (Inr (best', ag', w'))"
    have d: "epsilon ?ag2 \<le> epsilon ag" "0 \<le> epsilon ?ag2" "min_epsilon ?ag2 \<le> epsilon ?ag2"
      using decay_le[OF Suc.prems(2-5)] by (simp_all add: decay_floor)
    have "epsilon ag' \<le> epsilon ?ag2 \<and> min_epsilon ?ag2 \<le> epsilon ag' \<and> 0 \<le> epsilon ag'"
      using Suc.IH[OF t d(3) d(2)] Suc.prems(4,5) by simp
    then show ?thesis using d(1) by simp
  qed
qed

lemma train_loop_add:
  "train_loop fuel env (m + n) best ag w =
     (case train_loop fuel env m best ag w of
        None \<Rightarrow> None
      | Some (Inl e) \<Rightarrow> Some (Inl e)
      | Some (Inr (b, a, w')) \<Rightarrow> train_loop fuel env n b a w')"
proof (induction m arbitrary: best ag w)
  case 0
  show ?case by simp
next
  case (Suc m)
  show ?case by (simp add: Suc Let_def split: sum.splits option.splits prod.splits)
qed

text \<open>
  C3, amended.  Take a run of \<open>m\<close> episodes followed by a run of \<open>n\<close> more: together
  they are the run of \<open>m + n\<close> episodes, so \<open>ag\<close>, \<open>ag1\<close> and \<open>ag2\<close> are the agent at
  the start of an earlier, a later and a still later episode.  After at least one decay
  step epsilon is not below \<open>min_epsilon\<close>, whatever the initial values.  When the initial
  epsilon is at least \<open>min_epsilon\<close> and at least 0, and the decay factor is in (0, 1],
  epsilon at a later episode is not above epsilon at an earlier one.
\<close>

theorem epsilon_floor_and_decrease:
  fixes ag :: "('a::linordered_field) agent"
  assumes "train_loop fuel env m best ag w = Some (Inr (best1, ag1, w1))"
      and "train_loop fuel env n best1 ag1 w1 = Some (Inr (best2, ag2, w2))"
  shows "train_loop fuel env (m + n) best ag w = Some (Inr (best2, ag2, w2))
       \<and> (0 < m \<longrightarrow> min_epsilon ag \<le> epsilon ag1)
       \<and> (0 < m + n \<longrightarrow> min_epsilon ag \<le> epsilon ag2)
       \<and> (min_epsilon ag \<le> epsilon ag \<and> 0 \<le> epsilon ag \<and> 0 < decay_rate ag \<and> decay_rate ag \<le> 1
            \<longrightarrow> epsilon ag1 \<le> epsilon ag \<and> epsilon ag2 \<le> epsilon ag1)"
proof (intro conjI impI)
  show a: "train_loop fuel env (m + n) best ag w = Some (Inr (best2, ag2, w2))"
    by (simp add: train_loop_add assms)
  show "min_epsilon ag \<le> epsilon ag1" if "0 < m"
    using train_loop_floor[OF assms(1) that] .
  show "min_epsilon ag \<le> epsilon ag2" if "0 < m + n"
    using train_loop_floor[OF a that] .
next
  assume h: "min_epsilon ag \<le> epsilon ag \<and> 0 \<le> epsilon ag \<and> 0 < decay_rate ag \<and> decay_rate ag \<le> 1"
  then have 1: "epsilon ag1 \<le> epsilon ag \<and> min_epsilon ag \<le> epsilon ag1 \<and> 0 \<le> epsilon ag1"
    using train_loop_decrease[OF assms(1)] by blast
  then show "epsilon ag1 \<le> epsilon ag" by blast
  have f: "min_epsilon ag1 = min_epsilon ag" "decay_rate ag1 = decay_rate ag"
    using train_loop_fields[OF assms(1)] by simp_all
  show "epsilon ag2 \<le> epsilon ag1"
    using train_loop_decrease[OF assms(2)] 1 h by (simp add: f)
qed


lemma stub_step:
  assumes "0 < epsilon ag"
  shows "step stub_world ag () (PList [PInt 0, PInt 0]) demo_key =
     Inr (ag\<lparr>Q := (Q ag)((demo_key, ''S'') \<mapsto>
            entry (Q ag) demo_key ''S'' + alpha ag * (1 - entry (Q ag) demo_key ''S''))\<rparr>,
          (), PList [PInt 0, PInt 0], demo_key, 1, True)"
proof -
  have v: "valid_directions ag (PList [PInt 0, PInt 0]) 40 = Inr [''S'', ''E'']"
    by (simp add: valid_directions_list valid_directions_pair)
  have c: "choose_direction stub_world ag demo_key (Some [''S'', ''E'']) () = Inr (''S'', ())"
    using assms by (simp add: choose_direction_def stub_world_def choice_def)
  have m: "make_move stub_world (world_id ag) ''S'' () = Inr (stub_response (Some 1) (Some True), ())"
    by (simp add: stub_world_def)
  have k: "observation_key (stub_response (Some 1) (Some True)) (PList [PInt 0, PInt 0]) = Inr demo_key"
    by (simp add: observation_key_def stub_response_def demo_key_def)
  have l: "learn ag demo_key ''S'' 1 demo_key True =
     Inr (ag\<lparr>Q := (Q ag)((demo_key, ''S'') \<mapsto>
            entry (Q ag) demo_key ''S'' + alpha ag * (1 - entry (Q ag) demo_key ''S''))\<rparr>)"
    using learn_done[OF demo_key_hashable] .
  show ?thesis
    unfolding step_def v by (simp add: c m k l) (simp add: stub_response_def k[unfolded stub_response_def] l)
qed

lemma stub_episode:
  assumes "0 < epsilon ag"
  shows "episode_loop (Suc n) stub_world ag () (PList [PInt 0, PInt 0]) demo_key 0 =
     Some (Inr (ag\<lparr>Q := (Q ag)((demo_key, ''S'') \<mapsto>
            entry (Q ag) demo_key ''S'' + alpha ag * (1 - entry (Q ag) demo_key ''S''))\<rparr>, (), 1))"
  by (simp add: stub_step[OF assms])

lemma stub_train_loop:
  assumes "0 < epsilon ag"
  shows "train_loop (Suc n) stub_world (Suc k) best ag () =
     train_loop (Suc n) stub_world k (score_max best 1)
       (ag\<lparr>Q := (Q ag)((demo_key, ''S'') \<mapsto>
               entry (Q ag) demo_key ''S'' + alpha ag * (1 - entry (Q ag) demo_key ''S'')),
            epsilon := py_max2 (min_epsilon ag) (epsilon ag * decay_rate ag)\<rparr>) ()"
proof -
  have e: "enter_world stub_world (world_id ag) () = Inr ()"
    "get_location stub_world () = Inr (stub_response None None, ())"
    by (simp_all add: stub_world_def)
  have p: "get_position (stub_response None None) = Some (PList [PInt 0, PInt 0])"
    by (simp add: stub_response_def)
  have k: "observation_key (stub_response None None) (PList [PInt 0, PInt 0]) = Inr demo_key"
    by (simp add: observation_key_def stub_response_def demo_key_def)
  show "train_loop (Suc n) stub_world (Suc k) best ag () =
     train_loop (Suc n) stub_world k (score_max best 1)
       (ag\<lparr>Q := (Q ag)((demo_key, ''S'') \<mapsto>
               entry (Q ag) demo_key ''S'' + alpha ag * (1 - entry (Q ag) demo_key ''S'')),
            epsilon := py_max2 (min_epsilon ag) (epsilon ag * decay_rate ag)\<rparr>) ()"
    by (simp add: e p k stub_episode[OF assms] Let_def del: episode_loop.simps)
qed

text \<open>
  C3, as stated, fails for an initial epsilon below the minimum: with epsilon 1/1000,
  minimum 1/100 and decay factor 199/200, one episode on the stub world raises epsilon
  to 1/100.
\<close>

theorem epsilon_rises_counterexample:
  "train_loop (Suc 0) stub_world (Suc 0) NegInf (demo_agent\<lparr>epsilon := 1 / 1000\<rparr>) ()
     = Some (Inr (Num 1, demo_agent\<lparr>epsilon := 1 / 100, Q := [(demo_key, ''S'') \<mapsto> 1 / 2]\<rparr>, ()))
   \<and> 0 < decay_rate demo_agent \<and> decay_rate demo_agent \<le> 1
   \<and> epsilon (demo_agent\<lparr>epsilon := 1 / 1000\<rparr>) < epsilon (demo_agent\<lparr>epsilon := 1 / 100, Q := [(demo_key, ''S'') \<mapsto> 1 / 2]\<rparr>)"
proof -
  have a: "0 < epsilon (demo_agent\<lparr>epsilon := 1 / 1000\<rparr>)" by simp
  show ?thesis
    unfolding stub_train_loop[OF a]
    by (simp add: demo_agent_fields entry_def py_max2_def)
qed


theorem epsilon_floor_and_decrease_witness:
  "train_loop (Suc 0) stub_world (Suc 0) NegInf demo_agent ()
     = Some (Inr (Num 1, demo_agent\<lparr>epsilon := 199 / 200, Q := [(demo_key, ''S'') \<mapsto> 1 / 2]\<rparr>, ()))
   \<and> train_loop (Suc 0) stub_world (Suc 0) (Num 1)
        (demo_agent\<lparr>epsilon := 199 / 200, Q := [(demo_key, ''S'') \<mapsto> 1 / 2]\<rparr>) ()
     = Some (Inr (Num 1, demo_agent\<lparr>epsilon := 39601 / 40000, Q := [(demo_key, ''S'') \<mapsto> 3 / 4]\<rparr>, ()))
   \<and> train_loop (Suc 0) stub_world (Suc 0 + Suc 0) NegInf demo_agent ()
     = Some (Inr (Num 1, demo_agent\<lparr>epsilon := 39601 / 40000, Q := [(demo_key, ''S'') \<mapsto> 3 / 4]\<rparr>, ()))
   \<and> min_epsilon demo_agent \<le> epsilon demo_agent \<and> 0 \<le> epsilon demo_agent
   \<and> 0 < decay_rate demo_agent \<and> decay_rate demo_agent \<le> 1
   \<and> min_epsilon demo_agent \<le> (39601 / 40000 :: real) \<and> (39601 / 40000 :: real) \<le> 199 / 200
   \<and> (199 / 200 :: real) \<le> epsilon demo_agent"
proof -
  let ?a1 = "demo_agent\<lparr>epsilon := 199 / 200, Q := [(demo_key, ''S'') \<mapsto> 1 / 2]\<rparr>"
  let ?a2 = "demo_agent\<lparr>epsilon := 39601 / 40000, Q := [(demo_key, ''S'') \<mapsto> 3 / 4]\<rparr>"
  have e0: "0 < epsilon demo_agent" by (simp add: demo_agent_fields)
  have e1: "0 < epsilon ?a1" by simp
  have t1: "train_loop (Suc 0) stub_world (Suc 0) NegInf demo_agent () = Some (Inr (Num 1, ?a1, ()))"
    unfolding stub_train_loop[OF e0] by (simp add: demo_agent_fields entry_def py_max2_def)
  have t2: "train_loop (Suc 0) stub_world (Suc 0) (Num 1) ?a1 () = Some (Inr (Num 1, ?a2, ()))"
    unfolding stub_train_loop[OF e1] by (simp add: demo_agent_fields entry_def py_max2_def)
  have h: "min_epsilon demo_agent \<le> epsilon demo_agent \<and> 0 \<le> epsilon demo_agent
       \<and> 0 < decay_rate demo_agent \<and> decay_rate demo_agent \<le> 1"
    by (simp add: demo_agent_fields)
  from epsilon_floor_and_decrease[OF t1 t2] h t1 t2 show ?thesis by simp
qed

lemma foldl_score_max_Num:
  fixes b :: "'a::linorder"
  shows "foldl score_max (Num b) ts = Num (Max (set (b # ts)))"
proof -
  have "foldl score_max (Num b) ts = Num (foldl py_max2 b ts)"
    by (induction ts arbitrary: b) simp_all
  then show ?thesis by (simp only: foldl_py_max2_Max)
qed

lemma foldl_score_max_NegInf:
  fixes ts :: "'a::linorder list"
  shows "foldl score_max NegInf ts = (if ts = [] then NegInf else Num (Max (set ts)))"
proof (cases ts)
  case Nil
  then show ?thesis by simp
next
  case (Cons t us)
  then show ?thesis using foldl_score_max_Num[of t us] by simp
qed

lemma store_points_lookup:
  "\<exists>t. store_points team_id wid p data team_id = Some t \<and> map_of (by_world t) wid = Some p"
  by (simp add: store_points_def Let_def update_conv')

text \<open>A larger bound on the length of an episode does not change a result.\<close>

lemma episode_loop_more:
  "episode_loop n env ag w p k t = Some r \<Longrightarrow> episode_loop (n + j) env ag w p k t = Some r"
proof (induction n arbitrary: ag w p k t)
  case 0
  then show ?case by simp
next
  case (Suc n)
  show ?case
  proof (cases "step env ag w p k")
    case (Inl e)
    then show ?thesis using Suc.prems by simp
  next
    case (Inr x)
    obtain a1 w1 p1 k1 rw d where x: "x = (a1, w1, p1, k1, rw, d)" by (cases x) auto
    show ?thesis
    proof (cases d)
      case True
      then show ?thesis using Suc.prems Inr x by simp
    next
      case False
      then have "episode_loop n env a1 w1 p1 k1 (t + rw) = Some r" using Suc.prems Inr x by simp
      from Suc.IH[OF this] show ?thesis using Inr x False by simp
    qed
  qed
qed

lemma train_loop_more:
  "train_loop n env k best ag w = Some r \<Longrightarrow> train_loop (n + j) env k best ag w = Some r"
proof (induction k arbitrary: best ag w)
  case 0
  then show ?case by simp
next
  case (Suc k)
  show ?case
  proof (cases "enter_world env (world_id ag) w")
    case (Inl e)
    then show ?thesis using Suc.prems by simp
  next
    case w1: (Inr w1)
    show ?thesis
    proof (cases "get_location env w1")
      case (Inl e)
      then show ?thesis using Suc.prems w1 by simp
    next
      case (Inr x)
      obtain loc w2 where x: "x = (loc, w2)" by (cases x)
      let ?p = "case get_position loc of None \<Rightarrow> PList [] | Some p \<Rightarrow> p"
      show ?thesis
      proof (cases "observation_key loc ?p")
        case (Inl e)
        then show ?thesis using Suc.prems w1 Inr x by (simp add: Let_def)
      next
        case key: (Inr skey)
        from Suc.prems w1 Inr x key obtain er where er: "episode_loop n env ag w2 ?p skey 0 = Some er"
          by (cases "episode_loop n env ag w2 ?p skey 0") (simp_all add: Let_def)
        have er': "episode_loop (n + j) env ag w2 ?p skey 0 = Some er"
          using episode_loop_more[OF er] .
        show ?thesis
        proof (cases er)
          case (Inl e)
          then show ?thesis using Suc.prems w1 Inr x key er er' by (simp add: Let_def)
        next
          case res: (Inr y)
          obtain ag1 w3 tot where y: "y = (ag1, w3, tot)" by (cases y)
          have "train_loop n env k (score_max best tot)
                  (ag1\<lparr>epsilon := py_max2 (min_epsilon ag1) (epsilon ag1 * decay_rate ag1)\<rparr>) w3 = Some r"
            using Suc.prems w1 Inr x key er res y by (simp add: Let_def)
          from Suc.IH[OF this] show ?thesis using w1 Inr x key er' res y by (simp add: Let_def)
        qed
      qed
    qed
  qed
qed

lemma train_more:
  "train n env team_id ag w data = Some r \<Longrightarrow> train (n + j) env team_id ag w data = Some r"
proof -
  assume a: "train n env team_id ag w data = Some r"
  then obtain r' where r': "train_loop n env (nat (episodes ag)) NegInf ag w = Some r'"
    unfolding train_def by (cases "train_loop n env (nat (episodes ag)) NegInf ag w") simp_all
  from a show ?thesis unfolding train_def r' train_loop_more[OF r'] .
qed

section \<open>The record of a run\<close>

lemma recording_sel:
  "enter_world (recording env) wid (w, l) =
     (case enter_world env wid w of Inl e \<Rightarrow> Inl e | Inr w1 \<Rightarrow> Inr (w1, l @ [Entered]))"
  "get_location (recording env) (w, l) =
     (case get_location env w of Inl e \<Rightarrow> Inl e | Inr (loc, w2) \<Rightarrow> Inr (loc, (w2, l)))"
  "make_move (recording env) wid mv (w, l) =
     (case make_move env wid mv w of
        Inl e \<Rightarrow> Inl e
      | Inr (res, w') \<Rightarrow>
          Inr (res, (w', l @ [Moved (case get_reward res of None \<Rightarrow> 0 | Some r \<Rightarrow> r)
                                    (get_completed res = Some True)])))"
  "random (recording env) (w, l) = (case random env w of (u, w') \<Rightarrow> (u, (w', l)))"
  "randbelow (recording env) (w, l) = (case randbelow env w of (k, w') \<Rightarrow> (k, (w', l)))"
  by (simp_all add: recording_def)

lemma choice_recording:
  "choice (recording env) xs (w, l) =
     (case choice env xs w of Inl e \<Rightarrow> Inl e | Inr (v, w') \<Rightarrow> Inr (v, (w', l)))"
  by (simp add: choice_def recording_sel split: prod.splits)

lemma choose_direction_recording:
  "choose_direction (recording env) ag skey vd (w, l) =
     (case choose_direction env ag skey vd w of Inl e \<Rightarrow> Inl e | Inr (d, w') \<Rightarrow> Inr (d, (w', l)))"
  by (simp add: choose_direction_def recording_sel choice_recording Let_def
           split: prod.splits sum.splits)

lemma step_recording:
  "step (recording env) ag (w, l) p k =
     (case step env ag w p k of
        Inl e \<Rightarrow> Inl e
      | Inr (ag', w', p', k', r, d) \<Rightarrow> Inr (ag', (w', l @ [Moved r d]), p', k', r, d))"
  by (simp add: step_def choose_direction_recording recording_sel Let_def
           split: prod.splits sum.splits option.splits)


lemma episode_loop_recording:
  "episode_loop n (recording env) ag (w, l) p k t =
     (case episode_loop n env ag w p k t of
        None \<Rightarrow> None
      | Some (Inl e) \<Rightarrow> Some (Inl e)
      | Some (Inr (ag', w', t')) \<Rightarrow>
          Some (Inr (ag', (w', l @ map (\<lambda>(r, d). Moved r d) (episode_moves n env ag w p k)), t')))"
proof (induction n arbitrary: ag w l p k t)
  case 0
  show ?case by simp
next
  case (Suc n)
  show ?case
  proof (cases "step env ag w p k")
    case (Inl e)
    then show ?thesis by (simp add: step_recording)
  next
    case (Inr x)
    obtain a1 w1 p1 k1 r d where x: "x = (a1, w1, p1, k1, r, d)" by (cases x) auto
    show ?thesis
    proof (cases d)
      case True
      then show ?thesis using Inr x by (simp add: step_recording)
    next
      case False
      then show ?thesis using Inr x Suc[of a1 w1 "l @ [Moved r False]" p1 k1 "t + r"]
        by (simp add: step_recording split: option.splits sum.splits)
    qed
  qed
qed

lemma episode_moves_shape:
  "episode_loop n env ag w p k t = Some (Inr (ag', w', t'))
     \<Longrightarrow> ends_at_completion (episode_moves n env ag w p k)
       \<and> t' = foldl (+) t (map fst (episode_moves n env ag w p k))"
proof (induction n arbitrary: ag w p k t)
  case 0
  then show ?case by simp
next
  case (Suc n)
  from Suc.prems obtain a1 w1 p1 k1 r d where s: "step env ag w p k = Inr (a1, w1, p1, k1, r, d)"
    by (auto split: sum.splits)
  show ?case
  proof (cases d)
    case True
    then show ?thesis using Suc.prems s by (simp add: ends_at_completion_def)
  next
    case False
    then have "episode_loop n env a1 w1 p1 k1 (t + r) = Some (Inr (ag', w', t'))"
      using Suc.prems s by simp
    from Suc.IH[OF this] show ?thesis using s False by (simp add: ends_at_completion_def)
  qed
qed

lemma train_loop_recording:
  "train_loop fuel (recording env) k best ag (w, l) =
     (case train_loop fuel env k best ag w of
        None \<Rightarrow> None
      | Some (Inl e) \<Rightarrow> Some (Inl e)
      | Some (Inr (best', ag', w')) \<Rightarrow>
          Some (Inr (best', ag', (w', l @ concat (map episode_log (run_episodes fuel env k ag w))))))"
proof (induction k arbitrary: best ag w l)
  case 0
  show ?case by simp
next
  case (Suc k)
  show ?case
  proof (cases "enter_world env (world_id ag) w")
    case (Inl e)
    then show ?thesis by (simp add: recording_sel)
  next
    case w1: (Inr w1)
    show ?thesis
    proof (cases "get_location env w1")
      case (Inl e)
      then show ?thesis using w1 by (simp add: recording_sel)
    next
      case (Inr x)
      obtain loc w2 where x: "x = (loc, w2)" by (cases x)
      let ?p = "case get_position loc of None \<Rightarrow> PList [] | Some p \<Rightarrow> p"
      show ?thesis
      proof (cases "observation_key loc ?p")
        case (Inl e)
        then show ?thesis using w1 Inr x by (simp add: recording_sel Let_def)
      next
        case key: (Inr skey)
        show ?thesis
        proof (cases "episode_loop fuel env ag w2 ?p skey 0")
          case None
          then show ?thesis using w1 Inr x key
            by (simp add: recording_sel Let_def episode_loop_recording)
        next
          case (Some er)
          show ?thesis
          proof (cases er)
            case (Inl e)
            then show ?thesis using w1 Inr x key Some
              by (simp add: recording_sel Let_def episode_loop_recording)
          next
            case res: (Inr y)
            obtain ag1 w3 tot where y: "y = (ag1, w3, tot)" by (cases y)
            let ?ag2 = "ag1\<lparr>epsilon := py_max2 (min_epsilon ag1) (epsilon ag1 * decay_rate ag1)\<rparr>"
            let ?ms = "episode_moves fuel env ag w2 ?p skey"
            have l: "train_loop fuel (recording env) (Suc k) best ag (w, l) =
                     train_loop fuel (recording env) k (score_max best tot) ?ag2
                       (w3, (l @ [Entered]) @ map (\<lambda>(r, d). Moved r d) ?ms)"
              using w1 Inr x key Some res y
              by (simp add: recording_sel Let_def episode_loop_recording)
            have r: "train_loop fuel env (Suc k) best ag w =
                     train_loop fuel env k (score_max best tot) ?ag2 w3"
              using w1 Inr x key Some res y by (simp add: Let_def)
            have e: "run_episodes fuel env (Suc k) ag w = ?ms # run_episodes fuel env k ?ag2 w3"
              using w1 Inr x key Some res y by (simp add: Let_def)
            show ?thesis unfolding l r e Suc
              by (simp add: episode_log_def split: option.splits sum.splits)
          qed
        qed
      qed
    qed
  qed
qed

lemma run_episodes_shape:
  fixes env :: "('w, 'a::{zero,plus,minus,times,ord}) world"
  shows "train_loop fuel env k best ag w = Some (Inr (best', ag', w'))
     \<Longrightarrow> length (run_episodes fuel env k ag w) = k
       \<and> list_all ends_at_completion (run_episodes fuel env k ag w)
       \<and> best' = foldl score_max best (map episode_total (run_episodes fuel env k ag w))"
proof (induction k arbitrary: best ag w)
  case 0
  then show ?case by simp
next
  case (Suc k)
  from Suc.prems show ?case
  proof (rule train_loop_Suc_elim)
    fix w1 w2 skey q w3 tot and loc :: "'a response"
    let ?p = "case get_position loc of None \<Rightarrow> PList [] | Some p \<Rightarrow> p"
    let ?ag2 = "ag\<lparr>Q := q, epsilon := py_max2 (min_epsilon ag) (epsilon ag * decay_rate ag)\<rparr>"
    assume 1: "enter_world env (world_id ag) w = Inr w1"
      and 2: "get_location env w1 = Inr (loc, w2)"
      and 3: "observation_key loc ?p = Inr skey"
      and 4: "episode_loop fuel env ag w2 ?p skey 0 = Some (Inr (ag\<lparr>Q := q\<rparr>, w3, tot))"
      and 5: "train_loop fuel env k (score_max best tot) ?ag2 w3 = Some (Inr (best', ag', w'))"
    have m: "ends_at_completion (episode_moves fuel env ag w2 ?p skey)"
      and tot: "tot = episode_total (episode_moves fuel env ag w2 ?p skey)"
      using episode_moves_shape[OF 4] by (simp_all add: episode_total_def)
    have e: "run_episodes fuel env (Suc k) ag w
               = episode_moves fuel env ag w2 ?p skey # run_episodes fuel env k ?ag2 w3"
      by (simp add: 1 2 3 4 Let_def)
    from Suc.IH[OF 5] show ?thesis unfolding e using m tot by simp
  qed
qed

lemma split_log_moves:
  "split_log (map (\<lambda>(r, d). Moved r d) ms @ es) = (ms @ fst (split_log es), snd (split_log es))"
  by (induction ms) (auto split: prod.splits)

lemma episodes_of_episode_logs: "episodes_of (concat (map episode_log eps)) = eps"
proof -
  have "split_log (concat (map episode_log eps)) = ([], eps)"
  proof (induction eps)
    case Nil
    show ?case by simp
  next
    case (Cons ms eps)
    then show ?case by (simp add: episode_log_def split_log_moves)
  qed
  then show ?thesis by (simp add: episodes_of_def)
qed

lemma train_recording:
  "train fuel (recording env) team_id ag (w, l) data =
     (case train fuel env team_id ag w data of
        None \<Rightarrow> None
      | Some (Inl e) \<Rightarrow> Some (Inl e)
      | Some (Inr (best, ag', w', data')) \<Rightarrow>
          Some (Inr (best, ag',
                     (w', l @ concat (map episode_log (run_episodes fuel env (nat (episodes ag)) ag w))),
                     data')))"
  by (simp add: train_def train_loop_recording split: option.splits sum.splits)

section \<open>Termination on a well-behaved world\<close>

lemma int_pair_cases:
  "int_pair p \<Longrightarrow> \<exists>x y. p = PList [PInt x, PInt y] \<or> p = PTuple [PInt x, PInt y]"
  by (induction p rule: int_pair.induct) simp_all

lemma valid_directions_ok:
  assumes "int_pair p" and "directions ag \<noteq> []"
  shows "\<exists>ds. valid_directions ag p g = Inr ds \<and> ds \<noteq> []"
proof -
  from int_pair_cases[OF assms(1)] obtain x y
    where "p = PList [PInt x, PInt y] \<or> p = PTuple [PInt x, PInt y]" by blast
  then show ?thesis
    using assms(2) by (auto simp: valid_directions_list valid_directions_pair Let_def)
qed

lemma learn_ok:
  assumes "hashable k" and "d \<or> (hashable k' \<and> directions ag \<noteq> [])"
  shows "\<exists>ag'. learn ag k a r k' d = Inr ag'"
proof (cases d)
  case True
  then show ?thesis using learn_done[OF assms(1), of ag a r k'] by simp
next
  case False
  then have h: "hashable k'" and ne: "directions ag \<noteq> []" using assms(2) by simp_all
  obtain x xs where x: "map (entry (Q ag) k') (directions ag) = x # xs"
    using ne by (cases "map (entry (Q ag) k') (directions ag)") auto
  have c: "collect (map (\<lambda>d. Q_get (Q ag) k' d 0) (directions ag))
          = Inr (map (entry (Q ag) k') (directions ag))"
    using h by (rule collect_Q_get)
  have g: "Q_get (Q ag) k a 0 = Inr (entry (Q ag) k a)"
    using assms(1) by (rule Q_get_hashable)
  show ?thesis using False unfolding learn_def c g by (simp add: x)
qed

lemma choice_state:
  "choice env xs w = Inr (v, w') \<Longrightarrow> w' = snd (randbelow env w)"
  by (auto simp: choice_def split: if_splits prod.splits)

lemma choose_direction_state:
  "choose_direction env ag k vd w = Inr (d, w') \<Longrightarrow> w' = snd (randbelow env (snd (random env w)))"
  by (auto simp: choose_direction_def Let_def split: prod.splits if_splits sum.splits dest: choice_state)

lemma observation_key_ok:
  assumes "good_observation res"
  shows "\<exists>k. observation_key res (case get_position res of None \<Rightarrow> PList [] | Some p \<Rightarrow> p) = Inr k
             \<and> hashable k"
proof -
  let ?p = "case get_position res of None \<Rightarrow> PList [] | Some p \<Rightarrow> p"
  from assms have i: "int_pair ?p"
    and h: "hashable (case get_worldId res of None \<Rightarrow> PNone | Some v \<Rightarrow> v)"
    by (simp_all add: good_observation_def)
  from int_pair_cases[OF i] obtain x y
    where "?p = PList [PInt x, PInt y] \<or> ?p = PTuple [PInt x, PInt y]" by blast
  then show ?thesis using h by (auto simp: observation_key_def)
qed

lemma step_ok:
  assumes wb: "well_behaved env I left (world_id ag) fuel"
    and w: "I w" and k: "hashable k" and p: "int_pair p" and ne: "directions ag \<noteq> []"
  shows "\<exists>ag' w' p' k' r d. step env ag w p k = Inr (ag', w', p', k', r, d)
            \<and> I w' \<and> int_pair p' \<and> hashable k' \<and> (\<not> d \<longrightarrow> left w' < left w)"
proof -
  from valid_directions_ok[OF p ne] obtain ds
    where v: "valid_directions ag p 40 = Inr ds" and ds: "ds \<noteq> []" by blast
  have "ds = (case Some ds of None \<Rightarrow> directions ag | Some [] \<Rightarrow> directions ag | Some xs \<Rightarrow> xs)"
    using ds by (cases ds) simp_all
  from choose_direction_mem[OF k ds this, of env w] obtain mv w2
    where c: "choose_direction env ag k (Some ds) w = Inr (mv, w2)" by blast
  have w2: "w2 = snd (randbelow env (snd (random env w)))"
    using choose_direction_state[OF c] .
  have w1I: "I (snd (random env w))" and w1l: "left (snd (random env w)) \<le> left w"
    using wb w unfolding well_behaved_def by blast+
  have w2I: "I w2" and w2l: "left w2 \<le> left (snd (random env w))"
    using wb w1I unfolding well_behaved_def w2 by blast+
  from wb w2I obtain res w3
    where m: "make_move env (world_id ag) mv w2 = Inr (res, w3)" and w3I: "I w3"
      and g: "good_observation res"
      and dec: "get_completed res \<noteq> Some True \<longrightarrow> left w3 < left w2"
    unfolding well_behaved_def by blast
  let ?r = "case get_reward res of None \<Rightarrow> 0 | Some r \<Rightarrow> r"
  let ?d = "case get_completed res of None \<Rightarrow> False | Some b \<Rightarrow> b"
  let ?p = "case get_position res of None \<Rightarrow> PList [] | Some p \<Rightarrow> p"
  from observation_key_ok[OF g] obtain k'
    where o: "observation_key res ?p = Inr k'" and k': "hashable k'" by blast
  have ip: "int_pair ?p" using g by (simp add: good_observation_def)
  from learn_ok[OF k, of ?d k' ag mv ?r] k' ne obtain ag'
    where l: "learn ag k mv ?r k' ?d = Inr ag'" by blast
  have s: "step env ag w p k = Inr (ag', w3, ?p, k', ?r, ?d)"
    unfolding step_def v by (simp add: c m o l Let_def)
  have "\<not> ?d \<longrightarrow> left w3 < left w"
  proof
    assume "\<not> ?d"
    then have "get_completed res \<noteq> Some True" by (auto split: option.splits)
    then have "left w3 < left w2" using dec by simp
    then show "left w3 < left w" using w2l w1l by simp
  qed
  then show ?thesis using s w3I ip k' by blast
qed

lemma episode_loop_ok:
  assumes wb: "well_behaved env I left (world_id ag) fuel" and ne: "directions ag \<noteq> []"
  shows "I w \<Longrightarrow> hashable k \<Longrightarrow> int_pair p \<Longrightarrow> left w < n
     \<Longrightarrow> world_id a = world_id ag \<Longrightarrow> directions a = directions ag
     \<Longrightarrow> \<exists>a' w' t'. episode_loop n env a w p k t = Some (Inr (a', w', t')) \<and> I w'"
proof (induction n arbitrary: a w p k t)
  case 0
  then show ?case by simp
next
  case (Suc n)
  have wb': "well_behaved env I left (world_id a) fuel" using wb Suc.prems(5) by simp
  have ne': "directions a \<noteq> []" using ne Suc.prems(6) by simp
  from step_ok[OF wb' Suc.prems(1) Suc.prems(2) Suc.prems(3) ne'] obtain a1 w1 p1 k1 r d
    where s: "step env a w p k = Inr (a1, w1, p1, k1, r, d)"
      and 1: "I w1" "int_pair p1" "hashable k1" and dec: "\<not> d \<longrightarrow> left w1 < left w"
    by blast
  from step_agent[OF s] obtain q where q: "a1 = a\<lparr>Q := q\<rparr>" ..
  show ?case
  proof (cases d)
    case True
    then have "episode_loop (Suc n) env a w p k t = Some (Inr (a1, w1, t + r))"
      using s by simp
    then show ?thesis using 1(1) by blast
  next
    case False
    then have lt: "left w1 < n" using dec Suc.prems(4) by simp
    have f: "world_id a1 = world_id ag" "directions a1 = directions ag"
      using Suc.prems(5,6) by (simp_all add: q)
    from Suc.IH[OF 1(1) 1(3) 1(2) lt f, of "t + r"] show ?thesis using s False by simp
  qed
qed

lemma train_loop_ok:
  assumes wb: "well_behaved env I left (world_id ag) fuel" and ne: "directions ag \<noteq> []"
  shows "I w \<Longrightarrow> world_id a = world_id ag \<Longrightarrow> directions a = directions ag
     \<Longrightarrow> \<exists>best' a' w'. train_loop fuel env k best a w = Some (Inr (best', a', w')) \<and> I w'"
proof (induction k arbitrary: best a w)
  case 0
  then show ?case by simp
next
  case (Suc k)
  have wba: "well_behaved env I left (world_id a) fuel" using wb Suc.prems(2) by simp
  from wba Suc.prems(1) obtain w1 where e: "enter_world env (world_id a) w = Inr w1" and w1: "I w1"
    unfolding well_behaved_def by blast
  from wba w1 obtain loc w2 where g: "get_location env w1 = Inr (loc, w2)" and w2: "I w2"
    and go: "good_observation loc"
    unfolding well_behaved_def by blast
  let ?p = "case get_position loc of None \<Rightarrow> PList [] | Some p \<Rightarrow> p"
  from observation_key_ok[OF go] obtain skey
    where o: "observation_key loc ?p = Inr skey" and sk: "hashable skey" by blast
  have ip: "int_pair ?p" using go by (simp add: good_observation_def)
  have lt: "left w2 < fuel" using wba w2 unfolding well_behaved_def by blast
  from episode_loop_ok[OF wb ne w2 sk ip lt Suc.prems(2) Suc.prems(3), of 0] obtain a1 w3 tot
    where el: "episode_loop fuel env a w2 ?p skey 0 = Some (Inr (a1, w3, tot))" and w3: "I w3"
    by blast
  from episode_loop_agent[OF el] obtain q where q: "a1 = a\<lparr>Q := q\<rparr>" ..
  let ?a2 = "a1\<lparr>epsilon := py_max2 (min_epsilon a1) (epsilon a1 * decay_rate a1)\<rparr>"
  have t: "train_loop fuel env (Suc k) best a w = train_loop fuel env k (score_max best tot) ?a2 w3"
    by (simp add: e g o el Let_def)
  have "world_id ?a2 = world_id ag" "directions ?a2 = directions ag"
    using Suc.prems(2,3) by (simp_all add: q)
  from Suc.IH[OF w3 this, of "score_max best tot"] show ?case unfolding t .
qed

lemma train_ok:
  assumes "well_behaved env I left (world_id ag) fuel" and "I w" and "directions ag \<noteq> []"
  shows "\<exists>b a v d. train fuel env team_id ag w data = Some (Inr (b, a, v, d))"
proof -
  from train_loop_ok[OF assms(1) assms(3) assms(2) refl refl, of "nat (episodes ag)" NegInf]
  obtain b a v where "train_loop fuel env (nat (episodes ag)) NegInf ag w = Some (Inr (b, a, v))"
    by blast
  then show ?thesis by (simp add: train_def)
qed

section \<open>The result of training\<close>

text \<open>
  C8. Take any world and let it keep a record of the requests it serves.  Whenever
  \<open>train\<close> returns, the record shows as many episodes as configured, each ending at the
  first move that reports completion; the value returned is the greatest of the episodes'
  cumulative rewards, read off the record; and the points file is the old one after
  \<open>store_points\<close> with that value for the agent's world, whose entry holds it.  On a
  well-behaved world, started in a state of its invariant with a non-empty action list,
  \<open>train\<close> does return.  A result is the same under any larger bound on the length of
  an episode.
\<close>

theorem train_best_reward:
  fixes env :: "('w, 'a::{linorder,zero,plus,minus,times}) world"
  shows "(train fuel env team_id ag w data = Some (Inr (best, ag', w', data')) \<longrightarrow>
            (\<exists>events. train fuel (recording env) team_id ag (w, []) data
                         = Some (Inr (best, ag', (w', events), data'))
               \<and> length (episodes_of events) = nat (episodes ag)
               \<and> list_all ends_at_completion (episodes_of events)
               \<and> best = (if episodes_of events = [] then NegInf
                         else Num (Max (set (map episode_total (episodes_of events)))))
               \<and> data' = store_points team_id (world_id ag) best data
               \<and> (\<exists>t. data' team_id = Some t \<and> map_of (by_world t) (world_id ag) = Some best)))
       \<and> (well_behaved env I left (world_id ag) fuel \<and> I w \<and> directions ag \<noteq> [] \<longrightarrow>
            (\<exists>b a v d. train fuel env team_id ag w data = Some (Inr (b, a, v, d))))
       \<and> (train fuel env team_id ag w data = Some r \<longrightarrow> train (fuel + j) env team_id ag w data = Some r)"
proof (intro conjI impI)
  show "train (fuel + j) env team_id ag w data = Some r" if "train fuel env team_id ag w data = Some r"
    using train_more[OF that] .
next
  assume r: "train fuel env team_id ag w data = Some (Inr (best, ag', w', data'))"
  let ?eps = "run_episodes fuel env (nat (episodes ag)) ag w"
  from r have t: "train_loop fuel env (nat (episodes ag)) NegInf ag w = Some (Inr (best, ag', w'))"
    and d: "data' = store_points team_id (world_id ag') best data"
    unfolding train_def by (auto split: option.splits sum.splits)
  have wid: "world_id ag' = world_id ag" using train_loop_fields[OF t] by simp
  have rec: "train fuel (recording env) team_id ag (w, []) data
               = Some (Inr (best, ag', (w', concat (map episode_log ?eps)), data'))"
    by (simp add: train_recording r)
  have sh: "length ?eps = nat (episodes ag)" "list_all ends_at_completion ?eps"
    and b: "best = foldl score_max NegInf (map episode_total ?eps)"
    using run_episodes_shape[OF t] by simp_all
  have b': "best = (if ?eps = [] then NegInf else Num (Max (set (map episode_total ?eps))))"
    unfolding b foldl_score_max_NegInf by simp
  have "train fuel (recording env) team_id ag (w, []) data
               = Some (Inr (best, ag', (w', concat (map episode_log ?eps)), data'))
      \<and> length (episodes_of (concat (map episode_log ?eps))) = nat (episodes ag)
      \<and> list_all ends_at_completion (episodes_of (concat (map episode_log ?eps)))
      \<and> best = (if episodes_of (concat (map episode_log ?eps)) = [] then NegInf
                else Num (Max (set (map episode_total (episodes_of (concat (map episode_log ?eps)))))))
      \<and> data' = store_points team_id (world_id ag) best data
      \<and> (\<exists>t. data' team_id = Some t \<and> map_of (by_world t) (world_id ag) = Some best)"
    unfolding episodes_of_episode_logs
    using rec sh b' d wid store_points_lookup[of team_id "world_id ag" best data] by simp
  then show "\<exists>events. train fuel (recording env) team_id ag (w, []) data
                         = Some (Inr (best, ag', (w', events), data'))
               \<and> length (episodes_of events) = nat (episodes ag)
               \<and> list_all ends_at_completion (episodes_of events)
               \<and> best = (if episodes_of events = [] then NegInf
                         else Num (Max (set (map episode_total (episodes_of events)))))
               \<and> data' = store_points team_id (world_id ag) best data
               \<and> (\<exists>t. data' team_id = Some t \<and> map_of (by_world t) (world_id ag) = Some best)"
    by (rule exI)
next
  assume "well_behaved env I left (world_id ag) fuel \<and> I w \<and> directions ag \<noteq> []"
  then have 1: "well_behaved env I left (world_id ag) fuel" and 2: "I w" and 3: "directions ag \<noteq> []"
    by simp_all
  show "\<exists>b a v d. train fuel env team_id ag w data = Some (Inr (b, a, v, d))"
    using train_ok[OF 1 2 3] .
qed

lemma count_world_well_behaved:
  "well_behaved count_world (\<lambda>(e, m). m \<le> 2) snd ''7'' 3"
  by (auto simp: well_behaved_def count_world_def good_observation_def stub_response_def)

lemma count_world_run:
  "train 3 count_world ''1449'' (demo_agent\<lparr>episodes := 2\<rparr>) (0, 0) Map.empty
     = Some (Inr (Num 4,
                  demo_agent\<lparr>episodes := 2, epsilon := 39601 / 40000, Q := [(demo_key, ''S'') \<mapsto> 297 / 160]\<rparr>,
                  (2, 0),
                  [''1449'' \<mapsto> \<lparr>total = Num 4, by_world = [(''7'', Num 4)]\<rparr>]))"
  by (simp add: train_def numeral_3_eq_3 numeral_2_eq_2 count_world_def stub_response_def
        demo_agent_fields step_def valid_directions_def choose_direction_def choice_def
        observation_key_def learn_def Q_get_def py_max2_def store_points_def Let_def demo_key_def)


lemma count_world_recorded:
  "train 3 (recording count_world) ''1449'' (demo_agent\<lparr>episodes := 2\<rparr>) ((0, 0), []) Map.empty
     = Some (Inr (Num 4,
                  demo_agent\<lparr>episodes := 2, epsilon := 39601 / 40000, Q := [(demo_key, ''S'') \<mapsto> 297 / 160]\<rparr>,
                  ((2, 0), [Entered, Moved 1 False, Moved 1 True, Entered, Moved 2 False, Moved 2 True]),
                  [''1449'' \<mapsto> \<lparr>total = Num 4, by_world = [(''7'', Num 4)]\<rparr>]))"
  by (simp add: train_def numeral_3_eq_3 numeral_2_eq_2 recording_def count_world_def stub_response_def
        demo_agent_fields step_def valid_directions_def choose_direction_def choice_def
        observation_key_def learn_def Q_get_def py_max2_def store_points_def Let_def demo_key_def)

theorem train_best_reward_witness:
  "well_behaved count_world (\<lambda>(e, m). m \<le> 2) snd (world_id (demo_agent\<lparr>episodes := 2\<rparr>)) 3
   \<and> (case (0, 0) of (e, m) \<Rightarrow> m \<le> (2 :: nat))
   \<and> directions (demo_agent\<lparr>episodes := 2\<rparr>) \<noteq> []
   \<and> train 3 count_world ''1449'' (demo_agent\<lparr>episodes := 2\<rparr>) (0, 0) Map.empty
       = Some (Inr (Num 4,
                    demo_agent\<lparr>episodes := 2, epsilon := 39601 / 40000, Q := [(demo_key, ''S'') \<mapsto> 297 / 160]\<rparr>,
                    (2, 0),
                    [''1449'' \<mapsto> \<lparr>total = Num 4, by_world = [(''7'', Num 4)]\<rparr>]))
   \<and> train 3 (recording count_world) ''1449'' (demo_agent\<lparr>episodes := 2\<rparr>) ((0, 0), []) Map.empty
       = Some (Inr (Num 4,
                    demo_agent\<lparr>episodes := 2, epsilon := 39601 / 40000, Q := [(demo_key, ''S'') \<mapsto> 297 / 160]\<rparr>,
                    ((2, 0), [Entered, Moved 1 False, Moved 1 True, Entered, Moved 2 False, Moved 2 True]),
                    [''1449'' \<mapsto> \<lparr>total = Num 4, by_world = [(''7'', Num 4)]\<rparr>]))
   \<and> episodes_of [Entered, Moved 1 False, Moved 1 True, Entered, Moved 2 False, Moved (2 :: real) True]
       = [[(1, False), (1, True)], [(2, False), (2, True)]]
   \<and> list_all ends_at_completion [[(1 :: real, False), (1, True)], [(2, False), (2, True)]]
   \<and> map episode_total [[(1, False), (1, True)], [(2, False), (2, True)]] = [2, 4 :: real]
   \<and> Num 4 = Num (Max (set [2, 4 :: real]))"
proof -
  have wb: "well_behaved count_world (\<lambda>(e, m). m \<le> 2) snd (world_id (demo_agent\<lparr>episodes := 2\<rparr>)) 3"
    using count_world_well_behaved by (simp add: demo_agent_fields)
  have i: "case (0, 0) of (e, m) \<Rightarrow> m \<le> (2 :: nat)" by simp
  have d: "directions (demo_agent\<lparr>episodes := 2\<rparr>) \<noteq> []" by (simp add: demo_agent_fields)
  have e: "episodes_of [Entered, Moved 1 False, Moved 1 True, Entered, Moved 2 False, Moved (2 :: real) True]
       = [[(1, False), (1, True)], [(2, False), (2, True)]]"
    by (simp add: episodes_of_def)
  have s: "list_all ends_at_completion [[(1 :: real, False), (1, True)], [(2, False), (2, True)]]"
    "map episode_total [[(1, False), (1, True)], [(2, False), (2, True)]] = [2, 4 :: real]"
    by (simp_all add: ends_at_completion_def episode_total_def)
  from train_best_reward[of 3 count_world "''1449''" "demo_agent\<lparr>episodes := 2\<rparr>" "(0, 0)" Map.empty
      "Num 4" "demo_agent\<lparr>episodes := 2, epsilon := 39601 / 40000, Q := [(demo_key, ''S'') \<mapsto> 297 / 160]\<rparr>"
      "(2, 0)" "[''1449'' \<mapsto> \<lparr>total = Num 4, by_world = [(''7'', Num 4)]\<rparr>]"
      "\<lambda>(e, m). m \<le> 2" snd]
  show ?thesis using wb i d e s count_world_run count_world_recorded by simp
qed

text \<open>
  C10. With an episode count of 0, \<open>train\<close> returns at once, for any bound on the
  episode length and any world: the world is untouched, the agent is unchanged, the value
  returned is negative infinity, and negative infinity is stored for the agent's world.
\<close>

theorem train_zero_episodes:
  "train fuel env team_id (ag\<lparr>episodes := 0\<rparr>) w data =
     Some (Inr (NegInf, ag\<lparr>episodes := 0\<rparr>, w, store_points team_id (world_id ag) NegInf data))
   \<and> (\<exists>t. store_points team_id (world_id ag) NegInf data team_id = Some t
         \<and> map_of (by_world t) (world_id ag) = Some NegInf)"
  using store_points_lookup[of team_id "world_id ag" NegInf data] by (simp add: train_def)

text \<open>
  C9. The default for a missing position is the empty list, which \<open>valid_directions\<close>
  cannot unpack.  A location report without a position makes the first pass of the loop
  raise \<open>ValueError\<close>; a move result without position and completion is learned from
  with reward 0, and the next pass raises \<open>ValueError\<close>.  No points are stored.
\<close>

theorem train_missing_position_raises:
  "train (Suc n) no_position_world ''1449'' demo_agent () Map.empty = Some (Inl ValueError)
   \<and> train (Suc (Suc n)) no_position_move_world ''1449'' demo_agent () Map.empty = Some (Inl ValueError)"
proof -
  have 1: "train (Suc n) no_position_world ''1449'' demo_agent () Map.empty = Some (Inl ValueError)"
    by (simp add: train_def no_position_world_def stub_world_def stub_response_def demo_agent_fields
        numeral_3_eq_3 step_def valid_directions_def observation_key_def Let_def)
  have 2: "train (Suc (Suc n)) no_position_move_world ''1449'' demo_agent () Map.empty = Some (Inl ValueError)"
    by (simp add: train_def no_position_move_world_def stub_world_def stub_response_def demo_agent_fields
        numeral_3_eq_3 step_def valid_directions_def choose_direction_def choice_def observation_key_def
        learn_def Q_get_def py_max2_def Let_def)
  show ?thesis using 1 2 by simp
qed

end
